theory Spec2Isabelle
  imports Complex_Main
begin

section \<open>JavaScript primitives used by the program\<close>

text \<open>
  JavaScript numbers are idealised as exact values: integers as \<^typ>\<open>int\<close> or
  \<^typ>\<open>nat\<close>, times, frequencies and gains as \<^typ>\<open>real\<close>. Rounding of
  double and \<^verbatim>\<open>Float32Array\<close> arithmetic, \<^verbatim>\<open>NaN\<close> and
  \<^verbatim>\<open>Infinity\<close> are outside the model; where the program can produce them the
  model returns a value of its own that says so.
\<close>

datatype js_error = TypeError

text \<open>How a call ends: normally, or with an exception thrown in the given state.\<close>

datatype 'a completion = Normal 'a | Throw js_error 'a

fun state_of :: "'a completion \<Rightarrow> 'a" where
  "state_of (Normal s) = s"
| "state_of (Throw e s) = s"

text \<open>The remainder operator \<^verbatim>\<open>a % n\<close> on integers: the sign follows the dividend.\<close>

definition js_rem :: "int \<Rightarrow> int \<Rightarrow> int" where
  "js_rem a n = sgn a * (\<bar>a\<bar> mod \<bar>n\<bar>)"

text \<open>
  \<^verbatim>\<open>parseInt(s, 10)\<close>: leading white space is skipped, one sign is read, then the
  longest run of decimal digits; no digit gives \<^verbatim>\<open>NaN\<close> (here \<open>None\<close>).
  Strings are byte strings, so only the ASCII white space characters are recognised.
\<close>

definition is_ws :: "char \<Rightarrow> bool" where
  "is_ws c = (c \<in> set [CHR '' '', CHR 0x09, CHR 0x0A, CHR 0x0B, CHR 0x0C, CHR 0x0D])"

definition is_digit :: "char \<Rightarrow> bool" where
  "is_digit c = (48 \<le> (of_char c :: nat) \<and> (of_char c :: nat) \<le> 57)"

definition digit_val :: "char \<Rightarrow> nat" where
  "digit_val c = (of_char c :: nat) - 48"

definition digits_value :: "string \<Rightarrow> nat" where
  "digits_value ds = foldl (\<lambda>acc c. acc * 10 + digit_val c) 0 ds"

definition parseInt10 :: "string \<Rightarrow> int option" where
  "parseInt10 s =
     (let t = dropWhile is_ws s;
          neg = (case t of [] \<Rightarrow> False | c # r \<Rightarrow> c = CHR ''-'');
          u = (case t of [] \<Rightarrow> [] | c # r \<Rightarrow> if c = CHR ''-'' \<or> c = CHR ''+'' then r else t);
          ds = takeWhile is_digit u
      in if ds = [] then None
         else Some ((if neg then - 1 else 1) * int (digits_value ds)))"

text \<open>
  \<^verbatim>\<open>Number.prototype.toString()\<close> on an integer: its decimal digits
  (\<open>digit_char\<close> is only applied to numbers below 10).
\<close>

definition digit_char :: "nat \<Rightarrow> char" where
  "digit_char d = ''0123456789'' ! d"

fun nat_digits :: "nat \<Rightarrow> string" where
  "nat_digits n = (if n < 10 then [digit_char n] else nat_digits (n div 10) @ [digit_char (n mod 10)])"

declare nat_digits.simps [simp del]

definition toString :: "int \<Rightarrow> string" where
  "toString i = (if i < 0 then CHR ''-'' # nat_digits (nat (- i)) else nat_digits (nat i))"

section \<open>Pitch mapping\<close>

text \<open>
  \<^verbatim>\<open>const OPEN_MIDI = [74, 71, 67, 62, 79];\<close> and
  \<^verbatim>\<open>function midiToFreq(note) { return 440 * Math.pow(2, (note - 69) / 12); }\<close>
\<close>

definition OPEN_MIDI :: "int list" where
  "OPEN_MIDI = [74, 71, 67, 62, 79]"

definition midiToFreq :: "real \<Rightarrow> real" where
  "midiToFreq note = 440 * 2 powr ((note - 69) / 12)"

section \<open>Karplus-Strong rendering (pluckString, the buffer)\<close>

text \<open>
  The feedback loop of \<^verbatim>\<open>pluckString\<close>:
  \<^verbatim>\<open>
  let ptr = 0;
  for (let n = 0; n < totalSamples; n++) {
      const next = (ptr + 1) % bufLen;
      out[n] = delay[ptr];
      delay[ptr] = decay * 0.5 * (delay[ptr] + delay[next]);
      ptr = next;
  }\<close>
  The first argument counts the iterations still to run; the result is \<^verbatim>\<open>out\<close>.
\<close>

fun ks_loop :: "nat \<Rightarrow> real \<Rightarrow> real list \<Rightarrow> nat \<Rightarrow> real list" where
  "ks_loop 0 decay delay ptr = []"
| "ks_loop (Suc k) decay delay ptr =
     (let next = (ptr + 1) mod length delay
      in delay ! ptr #
         ks_loop k decay (delay[ptr := decay * 0.5 * (delay ! ptr + delay ! next)]) next)"

text \<open>
  What \<^verbatim>\<open>pluckString\<close> bakes into its \<^verbatim>\<open>AudioBuffer\<close>. \<open>rnd i\<close> is the value
  of the \<open>i\<close>-th call of \<^verbatim>\<open>Math.random()\<close>. With an empty delay line every read
  is \<^verbatim>\<open>undefined\<close> and the whole buffer is \<^verbatim>\<open>NaN\<close>; a sample rate or
  frequency that is not positive is outside the model.
\<close>

datatype render = Outside_model | NaN_buffer nat | Samples "real list"

definition bufLen_of :: "real \<Rightarrow> real \<Rightarrow> int" where
  "bufLen_of sampleRate freq = round (sampleRate / freq)"

definition totalSamples_of :: "real \<Rightarrow> real \<Rightarrow> int" where
  "totalSamples_of sampleRate freq = \<lceil>sampleRate * 3.0\<rceil> + bufLen_of sampleRate freq * 2"

definition seed_of :: "(nat \<Rightarrow> real) \<Rightarrow> nat \<Rightarrow> real list" where
  "seed_of rnd bufLen = map (\<lambda>i. rnd i * 2 - 1) [0..<bufLen]"

definition pluckString_buffer :: "real \<Rightarrow> real \<Rightarrow> real \<Rightarrow> (nat \<Rightarrow> real) \<Rightarrow> render" where
  "pluckString_buffer sampleRate freq decay rnd =
     (if sampleRate \<le> 0 \<or> freq \<le> 0 then Outside_model
      else let bufLen = bufLen_of sampleRate freq;
               totalSamples = totalSamples_of sampleRate freq
           in if bufLen = 0 then NaN_buffer (nat totalSamples)
              else Samples (ks_loop (nat totalSamples) decay (seed_of rnd (nat bufLen)) 0))"

section \<open>The sequencer\<close>

subsection \<open>State\<close>

text \<open>A measure is a grid of cells, \<^verbatim>\<open>measure[str][pos]\<close>, each cell a string.\<close>

type_synonym grid = "string list list"

text \<open>
  The \<^verbatim>\<open>playOpts\<close> object; a field that is absent (\<^verbatim>\<open>undefined\<close>) is \<open>None\<close>.
\<close>

record playOpts =
  enabled :: "bool option"
  accentDownbeat :: "bool option"
  banjoVolume :: "real option"
  metroVolume :: "real option"
  metroPitch :: "real option"

text \<open>
  A sound handed to the audio graph. \<open>Click\<close> is one call of
  \<^verbatim>\<open>metronomeClick(ctx, when, isAccent, pitch)\<close> with the oscillator's base frequency
  \<^verbatim>\<open>(isAccent ? 500 : 800) * pitch\<close> and its peak gain; \<open>Pluck\<close> is one call of
  \<^verbatim>\<open>pluckString(ctx, freq, gain, when, decay)\<close>.
\<close>

datatype sound =
    Click (start: real) (accent: bool) (click_freq: real) (peak: real)
  | Pluck (pluck_freq: real) (pluck_gain: real) (start: real) (pluck_decay: real)

text \<open>
  The log of synthesizer calls keeps, with each sound, the arguments
  \<^verbatim>\<open>(measureIdx, pos)\<close> of the \<^verbatim>\<open>scheduleNote\<close> call that issued it.
\<close>

type_synonym call = "(nat \<times> nat) \<times> sound"

definition call_time :: "call \<Rightarrow> real" where
  "call_time c = start (snd c)"

definition call_pos :: "call \<Rightarrow> nat \<times> nat" where
  "call_pos c = fst c"

text \<open>
  An \<^verbatim>\<open>AudioContext\<close> with the two master gain nodes that \<^verbatim>\<open>getAudioCtx\<close>
  creates with it: its clock and the target values of the two gains. A context is closed
  only by \<^verbatim>\<open>stopSong\<close>, which drops the reference at once, so no closed context is
  ever held.
\<close>

record audio_ctx =
  currentTime :: real
  banjoMasterGain :: real
  metroMasterGain :: real

text \<open>
  Timers of \<^verbatim>\<open>setTimeout\<close>: the wake-up \<^verbatim>\<open>setTimeout(scheduler, LOOKAHEAD)\<close>
  and the drain timer armed at the end of the song. \<open>due\<close> is the wall-clock time
  (seconds) from which the timer may fire.
\<close>

datatype timer_kind = SchedulerWake | DrainEnd

record timer =
  tid :: nat
  due :: real
  kind :: timer_kind

text \<open>
  The module's global variables, followed by the environment: the wall clock, the timers
  pending, the next timer id, the log of synthesizer calls and the log of completion
  callbacks invoked (a callback is named by a number).
\<close>

record engine =
  audioCtx :: "audio_ctx option"
  isPlaying :: bool
  currentBpm :: real
  currentMeasures :: "grid list"
  currentPlayOpts :: playOpts
  masterOnStop :: "nat option"
  nextNoteTime :: real
  currentMeasure :: nat
  currentPos :: nat
  timerID :: "nat option"
  wall :: real
  pending :: "timer list"
  nextId :: nat
  calls :: "call list"
  fired :: "nat list"

definition no_opts :: playOpts where
  "no_opts = \<lparr>enabled = None, accentDownbeat = None, banjoVolume = None,
              metroVolume = None, metroPitch = None\<rparr>"

text \<open>The state after the script has loaded.\<close>

definition initial :: engine where
  "initial = \<lparr>audioCtx = None, isPlaying = False, currentBpm = 90, currentMeasures = [],
     currentPlayOpts = no_opts, masterOnStop = None, nextNoteTime = 0.0,
     currentMeasure = 0, currentPos = 0, timerID = None,
     wall = 0, pending = [], nextId = 0, calls = [], fired = []\<rparr>"

definition SCHEDULE_AHEAD_TIME :: real where
  "SCHEDULE_AHEAD_TIME = 0.1"

definition LOOKAHEAD :: real where
  "LOOKAHEAD = 25.0"

subsection \<open>Timers and the audio context\<close>

text \<open>
  \<^verbatim>\<open>setTimeout(f, ms)\<close> returns the new timer's id; a negative delay counts as zero.
  \<^verbatim>\<open>clearTimeout(id)\<close> removes the timer if it is still pending and does nothing
  for \<^verbatim>\<open>null\<close> or an id that has fired.
\<close>

definition setTimeout :: "timer_kind \<Rightarrow> real \<Rightarrow> engine \<Rightarrow> nat \<times> engine" where
  "setTimeout k ms s =
     (nextId s,
      s\<lparr>pending := pending s @ [\<lparr>tid = nextId s, due = wall s + max 0 ms / 1000, kind = k\<rparr>],
        nextId := nextId s + 1\<rparr>)"

definition clearTimeout :: "nat option \<Rightarrow> engine \<Rightarrow> engine" where
  "clearTimeout i s =
     (case i of None \<Rightarrow> s
      | Some n \<Rightarrow> s\<lparr>pending := filter (\<lambda>t. tid t \<noteq> n) (pending s)\<rparr>)"

text \<open>
  \<^verbatim>\<open>getAudioCtx()\<close>: a new context (clock at 0, both master gains at their default 1)
  when none is held.
\<close>

definition getAudioCtx :: "engine \<Rightarrow> audio_ctx \<times> engine" where
  "getAudioCtx s =
     (case audioCtx s of
        Some c \<Rightarrow> (c, s)
      | None \<Rightarrow>
          (let c = \<lparr>currentTime = 0, banjoMasterGain = 1, metroMasterGain = 1\<rparr>
           in (c, s\<lparr>audioCtx := Some c\<rparr>)))"

definition updateAudioSettings :: "real \<Rightarrow> real \<Rightarrow> real \<Rightarrow> bool \<Rightarrow> bool \<Rightarrow> engine \<Rightarrow> engine" where
  "updateAudioSettings bVol mVol mPitch mEnabled mAccent s =
     (let engineBanjoVol = (bVol / 0.5) * 0.65;
          engineMetroVol = (mVol / 0.5) * 1.0;
          actualMetroVol = (if mEnabled then engineMetroVol else 0)
      in case audioCtx s of
           None \<Rightarrow> s
         | Some c \<Rightarrow>
             s\<lparr>audioCtx := Some (c\<lparr>banjoMasterGain := engineBanjoVol,
                                   metroMasterGain := actualMetroVol\<rparr>)\<rparr>)"

subsection \<open>Synthesizer calls\<close>

definition metronomeClick :: "nat \<times> nat \<Rightarrow> real \<Rightarrow> bool \<Rightarrow> real \<Rightarrow> engine \<Rightarrow> engine" where
  "metronomeClick origin when isAccent pitch s =
     (let freq = (if isAccent then 500 else 800) * pitch;
          peakGain = (if isAccent then 0.8 else 0.5)
      in s\<lparr>calls := calls s @ [(origin, Click when isAccent freq peakGain)]\<rparr>)"

definition pluckString :: "nat \<times> nat \<Rightarrow> real \<Rightarrow> real \<Rightarrow> real \<Rightarrow> real \<Rightarrow> engine \<Rightarrow> engine" where
  "pluckString origin freq gain when decay s =
     s\<lparr>calls := calls s @ [(origin, Pluck freq gain when decay)]\<rparr>"

subsection \<open>nextNote, scheduleNote, scheduler\<close>

definition nextNote :: "engine \<Rightarrow> engine" where
  "nextNote s =
     (let secondsPerBeat = 60.0 / currentBpm s;
          s1 = s\<lparr>nextNoteTime := nextNoteTime s + 0.25 * secondsPerBeat,
                 currentPos := currentPos s + 1\<rparr>
      in if currentPos s1 = 16 then s1\<lparr>currentPos := 0, currentMeasure := currentMeasure s1 + 1\<rparr>
         else s1)"

text \<open>
  \<^verbatim>\<open>measure[str][pos]\<close>: a missing row makes the second index throw, a missing
  column gives \<^verbatim>\<open>undefined\<close> (\<open>None\<close>).
\<close>

definition cell_at :: "grid \<Rightarrow> nat \<Rightarrow> nat \<Rightarrow> js_error + string option" where
  "cell_at m str pos =
     (if str < length m
      then Inr (if pos < length (m ! str) then Some (m ! str ! pos) else None)
      else Inl TypeError)"

text \<open>
  How the loop body reads a cell: silent, a fret, or a token \<^verbatim>\<open>parseInt\<close> cannot
  read (also \<^verbatim>\<open>undefined\<close>), which is skipped.
\<close>

datatype cell_kind = Silent | Fret int | Unparseable

definition classify :: "string option \<Rightarrow> cell_kind" where
  "classify cell =
     (if cell = Some ''-'' then Silent
      else if cell = Some ''h2'' then Fret 2
      else case cell of
             None \<Rightarrow> Unparseable
           | Some c \<Rightarrow> (case parseInt10 c of None \<Rightarrow> Unparseable | Some fret \<Rightarrow> Fret fret))"

text \<open>One iteration of \<^verbatim>\<open>for (let str = 0; str < 5; str++)\<close> in \<^verbatim>\<open>scheduleNote\<close>.\<close>

definition schedule_string :: "nat \<Rightarrow> nat \<Rightarrow> real \<Rightarrow> grid \<Rightarrow> nat \<Rightarrow> engine \<Rightarrow> engine completion" where
  "schedule_string measureIdx pos time m str s =
     (case cell_at m str pos of
        Inl e \<Rightarrow> Throw e s
      | Inr cell \<Rightarrow>
          (case classify cell of
             Silent \<Rightarrow> Normal s
           | Unparseable \<Rightarrow> Normal s
           | Fret fret \<Rightarrow>
               (let midiNote = OPEN_MIDI ! str + fret;
                    freq = midiToFreq (real_of_int midiNote);
                    isDrone = (str = 4);
                    gain = (if isDrone then 0.35 else 0.45);
                    decay = (if isDrone then 0.991 else 0.994)
                in Normal (pluckString (measureIdx, pos) freq gain time decay s))))"

fun for_strings :: "nat list \<Rightarrow> (nat \<Rightarrow> engine \<Rightarrow> engine completion) \<Rightarrow> engine \<Rightarrow> engine completion" where
  "for_strings [] body s = Normal s"
| "for_strings (str # strs) body s =
     (case body str s of
        Throw e s' \<Rightarrow> Throw e s'
      | Normal s' \<Rightarrow> for_strings strs body s')"

definition scheduleNote :: "nat \<Rightarrow> nat \<Rightarrow> real \<Rightarrow> engine \<Rightarrow> engine completion" where
  "scheduleNote measureIdx pos time s0 =
     (let s = snd (getAudioCtx s0);
          opts = currentPlayOpts s;
          clickEnabled = (enabled opts = Some True);
          accentFlag = (accentDownbeat opts \<noteq> Some False);
          pitch = (case metroPitch opts of Some p \<Rightarrow> p | None \<Rightarrow> 1.0);
          s1 = (if pos mod 4 = 0 \<and> clickEnabled
                then (let beat = pos div 4;
                          isAccent = (accentFlag \<and> beat = 0)
                      in metronomeClick (measureIdx, pos) time isAccent pitch s)
                else s)
      in if measureIdx \<ge> length (currentMeasures s1) then Normal s1
         else for_strings [0, 1, 2, 3, 4]
                (schedule_string measureIdx pos time (currentMeasures s1 ! measureIdx)) s1)"

text \<open>
  \<^verbatim>\<open>scheduler()\<close>: the \<^verbatim>\<open>while\<close> loop and, once its condition fails, the
  re-arming of the wake-up timer. The audio clock does not move during one run. The loop
  need not end in every state (a position counter beyond 16 with a tempo that is not
  positive), so not returning is the value \<open>None\<close>.
\<close>

partial_function (option) scheduler :: "engine \<Rightarrow> engine completion option" where
  "scheduler s0 =
     (let ctx = fst (getAudioCtx s0); s = snd (getAudioCtx s0)
      in if nextNoteTime s < currentTime ctx + SCHEDULE_AHEAD_TIME
         then (if currentMeasure s \<ge> length (currentMeasures s)
               then (let remainingTime = (nextNoteTime s - currentTime ctx) * 1000 + 3500
                     in Some (Normal (snd (setTimeout DrainEnd remainingTime s))))
               else (case scheduleNote (currentMeasure s) (currentPos s) (nextNoteTime s) s of
                       Throw e s' \<Rightarrow> Some (Throw e s')
                     | Normal s' \<Rightarrow> scheduler (nextNote s')))
         else (let armed = setTimeout SchedulerWake LOOKAHEAD s
               in Some (Normal ((snd armed)\<lparr>timerID := Some (fst armed)\<rparr>))))"

subsection \<open>playSong and stopSong\<close>

text \<open>
  \<^verbatim>\<open>if (ctx.state === 'suspended') ctx.resume();\<close> in \<^verbatim>\<open>playSong\<close> changes no
  variable of the module; whether the audio clock then runs is the environment's part
  (\<open>Tick\<close> below).
\<close>

definition stopSong :: "engine \<Rightarrow> engine" where
  "stopSong s =
     (let s1 = clearTimeout (timerID s) (s\<lparr>isPlaying := False\<rparr>)
      in case audioCtx s1 of
           None \<Rightarrow> s1
         | Some c \<Rightarrow> s1\<lparr>audioCtx := None\<rparr>)"

definition playSong :: "grid list \<Rightarrow> real \<Rightarrow> nat option \<Rightarrow> playOpts \<Rightarrow> engine \<Rightarrow> engine completion option" where
  "playSong allMeasures bpm onStop opts s0 =
     (let s1 = (if isPlaying s0 then stopSong s0 else s0);
          ctx = fst (getAudioCtx s1);
          s2 = (snd (getAudioCtx s1))
                 \<lparr>isPlaying := True, currentBpm := bpm, currentMeasures := allMeasures,
                  currentPlayOpts := opts, masterOnStop := onStop,
                  currentMeasure := 0, currentPos := 0,
                  nextNoteTime := currentTime ctx + 0.1\<rparr>;
          s3 = updateAudioSettings
                 (case banjoVolume opts of Some v \<Rightarrow> v | None \<Rightarrow> 0.5)
                 (case metroVolume opts of Some v \<Rightarrow> v | None \<Rightarrow> 0.5)
                 (case metroPitch opts of Some v \<Rightarrow> v | None \<Rightarrow> 1.0)
                 (enabled opts = Some True)
                 (accentDownbeat opts \<noteq> Some False) s2
      in scheduler s3)"

subsection \<open>The event loop\<close>

text \<open>
  The callback of the drain timer:
  \<^verbatim>\<open>if (isPlaying) { isPlaying = false; if (masterOnStop) masterOnStop(); }\<close>
\<close>

definition drain_callback :: "engine \<Rightarrow> engine" where
  "drain_callback s =
     (if isPlaying s
      then (let s1 = s\<lparr>isPlaying := False\<rparr>
            in case masterOnStop s1 of
                 Some cb \<Rightarrow> s1\<lparr>fired := fired s1 @ [cb]\<rparr>
               | None \<Rightarrow> s1)
      else s)"

text \<open>
  A pending timer that is due fires: it leaves the pending list and its callback runs. An
  exception thrown by a callback ends that callback only; the state it left stands.
  \<open>None\<close> when the timer is not pending, is not yet due, or its callback does not return.
\<close>

definition fire :: "nat \<Rightarrow> engine \<Rightarrow> engine option" where
  "fire i s =
     (case find (\<lambda>t. tid t = i) (pending s) of
        None \<Rightarrow> None
      | Some t \<Rightarrow>
          if wall s < due t then None
          else (let s1 = s\<lparr>pending := filter (\<lambda>t. tid t \<noteq> i) (pending s)\<rparr>
                in case kind t of
                     SchedulerWake \<Rightarrow> map_option state_of (scheduler s1)
                   | DrainEnd \<Rightarrow> Some (drain_callback s1)))"

text \<open>
  What can happen to the engine: the three entry points are called, time passes
  (\<open>Tick dt adt\<close>: the wall clock advances by \<open>dt\<close> and the clock of the open audio
  context by \<open>adt\<close>, which is less while the context is suspended), or a timer fires.
\<close>

datatype event =
    Play "grid list" real "nat option" playOpts
  | Stop
  | UpdateSettings real real real bool bool
  | Tick real real
  | Fire nat

fun step :: "event \<Rightarrow> engine \<Rightarrow> engine option" where
  "step (Play allMeasures bpm onStop opts) s = map_option state_of (playSong allMeasures bpm onStop opts s)"
| "step Stop s = Some (stopSong s)"
| "step (UpdateSettings bVol mVol mPitch mEnabled mAccent) s =
     Some (updateAudioSettings bVol mVol mPitch mEnabled mAccent s)"
| "step (Tick dt adt) s =
     (if 0 \<le> adt \<and> adt \<le> dt
      then Some (s\<lparr>wall := wall s + dt,
                   audioCtx := map_option (\<lambda>c. c\<lparr>currentTime := currentTime c + adt\<rparr>) (audioCtx s)\<rparr>)
      else None)"
| "step (Fire i) s = fire i s"

fun run :: "event list \<Rightarrow> engine \<Rightarrow> engine option" where
  "run [] s = Some s"
| "run (e # es) s = (case step e s of None \<Rightarrow> None | Some s' \<Rightarrow> run es s')"

section \<open>The earlier engine's stopSong\<close>

text \<open>
  The engine in \<^verbatim>\<open>audio.js\<close> keeps every source node in \<^verbatim>\<open>activeSrcs\<close> and the
  end-of-song timer in \<^verbatim>\<open>activeSrcs._timer\<close>:
  \<^verbatim>\<open>
  function stopSong() {
      stopFlag = true;
      clearTimeout(activeSrcs._timer);
      activeSrcs.forEach(src => { try { src.stop(); } catch (_) { } });
      activeSrcs = [];
      isPlaying = false;
  }\<close>
  Source nodes and timers are named by numbers; \<open>l_halted\<close> is the set of nodes on which
  \<^verbatim>\<open>stop()\<close> has been called. The fresh array has no \<^verbatim>\<open>_timer\<close>.
\<close>

record legacy =
  l_activeSrcs :: "nat list"
  l_timer :: "nat option"
  l_isPlaying :: bool
  l_stopFlag :: bool
  l_pending :: "nat list"
  l_halted :: "nat set"

definition stopSong_legacy :: "legacy \<Rightarrow> legacy" where
  "stopSong_legacy s =
     s\<lparr>l_stopFlag := True,
       l_pending := (case l_timer s of None \<Rightarrow> l_pending s
                     | Some i \<Rightarrow> filter (\<lambda>j. j \<noteq> i) (l_pending s)),
       l_halted := l_halted s \<union> set (l_activeSrcs s),
       l_activeSrcs := [],
       l_timer := None,
       l_isPlaying := False\<rparr>"

section \<open>Tab generation\<close>

text \<open>
  \<^verbatim>\<open>CHORD_LIB\<close>, the \<^verbatim>\<open>frets\<close> of each chord:
  \<^verbatim>\<open>[d(1st), B(2nd), G(3rd), D(4th), g(5th)]\<close>.
\<close>

definition CHORD_LIB :: "(string \<times> int list) list" where
  "CHORD_LIB =
     [(''G'', [0, 0, 0, 0, 0]),
      (''C'', [2, 1, 0, 2, 0]),
      (''D'', [4, 3, 2, 0, 0]),
      (''D7'', [1, 2, 0, 0, 0]),
      (''Em'', [0, 0, 0, 2, 0]),
      (''Am'', [0, 1, 2, 2, 0])]"

text \<open>The assignment \<^verbatim>\<open>m[r][c] = v\<close>.\<close>

definition set_cell :: "grid \<Rightarrow> nat \<Rightarrow> nat \<Rightarrow> string \<Rightarrow> grid" where
  "set_cell m r c v = m[r := (m ! r)[c := v]]"

text \<open>
  \<^verbatim>\<open>generateMeasure(chordName, difficulty, variation)\<close>. A chord name that is not a key
  of the table makes the destructuring \<^verbatim>\<open>const { frets } = CHORD_LIB[chordName]\<close>
  throw. Every difficulty other than \<^verbatim>\<open>'easy'\<close> takes the second branch.
\<close>

definition generateMeasure :: "string \<Rightarrow> string \<Rightarrow> int \<Rightarrow> js_error + grid" where
  "generateMeasure chordName difficulty variation =
     (case map_of CHORD_LIB chordName of
        None \<Rightarrow> Inl TypeError
      | Some frets \<Rightarrow>
          (let fd = frets ! 0; fB = frets ! 1; fG = frets ! 2; fD = frets ! 3; fg = frets ! 4;
               m = replicate 5 (replicate 16 ''-'')
           in Inr
             (if difficulty = ''easy''
              then (let m1 = fold (\<lambda>p m. set_cell (set_cell (set_cell (set_cell m
                                      0 p (toString fd)) 1 p (toString fB))
                                      2 p (toString fG)) 3 p (toString fD)) [0, 8] m;
                        m2 = fold (\<lambda>p m. set_cell m 4 p (toString fg)) [4, 12] m1
                    in if js_rem variation 2 = 1
                       then set_cell (set_cell m2 0 8 ''-'') 1 8 (toString fB)
                       else m2)
              else (let m1 = set_cell m 0 0 (toString fd);
                        m2 = set_cell m1 1 2 (toString fB);
                        m3 = set_cell m2 2 2 (toString fG);
                        m4 = set_cell m3 4 4 (toString fg);
                        m5 = (if js_rem variation 3 = 0 then set_cell m4 0 8 (toString fd)
                              else if js_rem variation 3 = 1
                              then (let passNote = (if fd = 0 then 2 else fd)
                                    in set_cell m4 0 8 (toString passNote))
                              else set_cell m4 1 8 (toString fB));
                        m6 = set_cell m5 2 10 (toString fG);
                        m7 = set_cell m6 4 12 (toString fg)
                    in if js_rem variation 4 = 0 \<and> fd = 0 then set_cell m7 0 14 ''h2''
                       else m7))))"

section \<open>Concrete sessions\<close>

text \<open>The measure \<^verbatim>\<open>generateMeasure('G', 'easy', 0)\<close>, written out.\<close>

definition measure_G :: grid where
  "measure_G =
     [[''0'', ''-'', ''-'', ''-'', ''-'', ''-'', ''-'', ''-'', ''0'', ''-'', ''-'', ''-'', ''-'', ''-'', ''-'', ''-''],
      [''0'', ''-'', ''-'', ''-'', ''-'', ''-'', ''-'', ''-'', ''0'', ''-'', ''-'', ''-'', ''-'', ''-'', ''-'', ''-''],
      [''0'', ''-'', ''-'', ''-'', ''-'', ''-'', ''-'', ''-'', ''0'', ''-'', ''-'', ''-'', ''-'', ''-'', ''-'', ''-''],
      [''0'', ''-'', ''-'', ''-'', ''-'', ''-'', ''-'', ''-'', ''0'', ''-'', ''-'', ''-'', ''-'', ''-'', ''-'', ''-''],
      [''-'', ''-'', ''-'', ''-'', ''0'', ''-'', ''-'', ''-'', ''-'', ''-'', ''-'', ''-'', ''0'', ''-'', ''-'', ''-'']]"

text \<open>
  A session of one measure whose single wake-up comes late (2.1 s after the start, so one
  pass schedules the whole measure and finds the end of the song), stopped 3.49 s later;
  a second session of two measures started at once; and, 10 ms into it, the first
  session's drain timer firing. Timer 0 is the first session's wake-up, timer 1 its drain
  timer, timer 2 the second session's wake-up.
\<close>

definition stale_drain_session :: "event list" where
  "stale_drain_session =
     [Play [measure_G] 120 (Some 1) no_opts, Tick 2.1 2.1, Fire 0, Tick 3.49 3.49, Stop,
      Play [measure_G, measure_G] 120 (Some 2) no_opts, Tick 0.01 0.01, Fire 1]"

text \<open>
  After that: a third \<^verbatim>\<open>playSong\<close> followed at once by \<^verbatim>\<open>stopSong\<close>, and then
  what the second session's wake-up timer (timer 2, and timer 4 that it re-arms) does
  15 ms and 40 ms later.
\<close>

definition restart_and_stop :: "event list" where
  "restart_and_stop = [Play [measure_G] 120 (Some 3) no_opts, Stop]"

definition after_stop :: "event list" where
  "after_stop = [Tick 0.015 0.015, Fire 2, Tick 0.025 0.025, Fire 4]"

text \<open>
  Two sessions of one measure in which \<^verbatim>\<open>updateAudioSettings\<close> is called right after
  \<^verbatim>\<open>playSong\<close> and the wake-up comes 0.55 s after the start. In the first the
  metronome is off in \<^verbatim>\<open>playOpts\<close> and switched on by the call; in the second it is
  on with the downbeat accented in \<^verbatim>\<open>playOpts\<close>, and the call switches the accent
  off.
\<close>

definition enabled_later_session :: "event list" where
  "enabled_later_session =
     [Play [measure_G] 120 None (no_opts\<lparr>enabled := Some False\<rparr>),
      UpdateSettings 0.5 0.5 1 True True, Tick 0.55 0.55, Fire 0]"

definition accent_off_later_session :: "event list" where
  "accent_off_later_session =
     [Play [measure_G] 120 None (no_opts\<lparr>enabled := Some True, accentDownbeat := Some True\<rparr>),
      UpdateSettings 0.5 0.5 1 True False, Tick 0.55 0.55, Fire 0]"

text \<open>Events other than \<^verbatim>\<open>playSong\<close>.\<close>

fun no_play :: "event \<Rightarrow> bool" where
  "no_play (Play allMeasures bpm onStop opts) = False"
| "no_play e = True"

text \<open>
  No wake-up timer is pending but, while a session runs, the one \<^verbatim>\<open>timerID\<close> names;
  and no wake-up timer is pending at all.
\<close>

definition no_orphan_wake :: "engine \<Rightarrow> bool" where
  "no_orphan_wake s =
     (\<forall>t\<in>set (pending s). kind t = SchedulerWake \<longrightarrow> isPlaying s \<and> timerID s = Some (tid t))"

definition no_wake :: "engine \<Rightarrow> bool" where
  "no_wake s = (\<forall>t\<in>set (pending s). kind t \<noteq> SchedulerWake)"

text \<open>Events that call neither \<^verbatim>\<open>playSong\<close> nor \<^verbatim>\<open>stopSong\<close>.\<close>

fun quiet :: "event \<Rightarrow> bool" where
  "quiet (Play allMeasures bpm onStop opts) = False"
| "quiet Stop = False"
| "quiet (UpdateSettings bVol mVol mPitch mEnabled mAccent) = True"
| "quiet (Tick dt adt) = True"
| "quiet (Fire i) = True"

text \<open>The calls logged after the first \<open>n\<close>.\<close>

definition calls_since :: "nat \<Rightarrow> engine \<Rightarrow> call list" where
  "calls_since n s = drop n (calls s)"

section \<open>Notions used to state the properties\<close>

text \<open>A click, as opposed to a plucked string.\<close>

fun is_click :: "call \<Rightarrow> bool" where
  "is_click (origin, Click t a f g) = True"
| "is_click (origin, Pluck f g t d) = False"

text \<open>\<open>emits P s s'\<close>: \<open>s'\<close> is \<open>s\<close> with more calls logged, each satisfying \<open>P\<close>.\<close>

definition emits :: "(call \<Rightarrow> bool) \<Rightarrow> engine \<Rightarrow> engine \<Rightarrow> bool" where
  "emits P s s' = (\<exists>new. s' = s\<lparr>calls := calls s @ new\<rparr> \<and> (\<forall>c\<in>set new. P c))"

text \<open>The state in which \<^verbatim>\<open>playSong\<close> goes on after \<^verbatim>\<open>if (isPlaying) stopSong();\<close>.\<close>

definition before_play :: "engine \<Rightarrow> engine" where
  "before_play s = (if isPlaying s then stopSong s else s)"

text \<open>
  One sixteenth note at a tempo, \<^verbatim>\<open>0.25 * (60.0 / currentBpm)\<close>, and the number of a
  grid position counted in sixteenths from the start of the timeline.
\<close>

definition sixteenth :: "real \<Rightarrow> real" where
  "sixteenth bpm = 0.25 * (60.0 / bpm)"

definition grid_index :: "nat \<times> nat \<Rightarrow> nat" where
  "grid_index mp = 16 * fst mp + snd mp"

text \<open>
  What holds throughout a session that started with the calls \<open>old\<close> already logged and
  its first event at time \<open>t0\<close>: the pointer's time is \<open>t0\<close> plus one sixteenth for
  each position passed, and the calls logged since are in grid order, each at the time of
  its position.
\<close>

definition session_inv :: "call list \<Rightarrow> real \<Rightarrow> real \<Rightarrow> engine \<Rightarrow> bool" where
  "session_inv old t0 bpm s =
     (currentBpm s = bpm \<and> currentPos s < 16 \<and>
      nextNoteTime s = t0 + real (grid_index (currentMeasure s, currentPos s)) * sixteenth bpm \<and>
      (\<exists>new. calls s = old @ new \<and> sorted (map (grid_index \<circ> call_pos) new) \<and>
         (\<forall>c\<in>set new. snd (call_pos c) < 16
              \<and> grid_index (call_pos c) \<le> grid_index (currentMeasure s, currentPos s)
              \<and> call_time c = t0 + real (grid_index (call_pos c)) * sixteenth bpm)))"

text \<open>
  What holds of the clicks throughout a session that started with the calls \<open>old\<close>
  already logged, the options \<open>opts\<close> and the timeline \<open>ms\<close>: no call logged since
  lies beyond the pointer, each click sits on a multiple of 4 and is accented as \<open>opts\<close>
  says, every position before the pointer has one click if it is a multiple of 4 and none
  otherwise, and calls are logged for the position of the pointer itself only if the
  measure there has fewer than five rows.
\<close>

definition click_inv :: "call list \<Rightarrow> playOpts \<Rightarrow> grid list \<Rightarrow> engine \<Rightarrow> bool" where
  "click_inv old opts ms s =
     (currentPlayOpts s = opts \<and> currentMeasures s = ms \<and> currentPos s < 16 \<and>
      (\<exists>new. calls s = old @ new \<and>
         (\<forall>c\<in>set new. snd (call_pos c) < 16
              \<and> grid_index (call_pos c) \<le> grid_index (currentMeasure s, currentPos s)) \<and>
         (\<forall>c\<in>set new. is_click c \<longrightarrow>
              snd (call_pos c) mod 4 = 0
              \<and> accent (snd c) = (accentDownbeat opts \<noteq> Some False \<and> snd (call_pos c) = 0)) \<and>
         (\<forall>m p. p < 16 \<and> grid_index (m, p) < grid_index (currentMeasure s, currentPos s)
              \<longrightarrow> length (filter (\<lambda>c. is_click c \<and> call_pos c = (m, p)) new)
                    = (if p mod 4 = 0 then 1 else 0)) \<and>
         ((\<exists>c\<in>set new. call_pos c = (currentMeasure s, currentPos s))
              \<longrightarrow> currentMeasure s < length ms \<and> length (ms ! currentMeasure s) < 5)))"

text \<open>
  The cells a generated measure holds, and the shape of a measure: 5 rows of 16 such cells.
\<close>

definition allowed_cell :: "string \<Rightarrow> bool" where
  "allowed_cell c = (c \<in> set [''-'', ''h2'', ''0'', ''1'', ''2'', ''3'', ''4''])"

definition well_shaped :: "grid \<Rightarrow> bool" where
  "well_shaped g =
     (length g = 5 \<and> (\<forall>row\<in>set g. length row = 16 \<and> (\<forall>cell\<in>set row. allowed_cell cell)))"

section \<open>Pitch: one fret is one semitone\<close>

lemma midiToFreq_pos: "0 < midiToFreq n"
  by (simp add: midiToFreq_def)

lemma semitone_step: "midiToFreq (n + 1) = midiToFreq n * 2 powr (1 / 12)"
proof -
  have "(n + 1 - 69) / 12 = (n - 69) / 12 + 1 / 12" by (simp add: field_simps)
  then have "2 powr ((n + 1 - 69) / 12) = 2 powr ((n - 69) / 12) * 2 powr (1 / 12)"
    by (simp only: powr_add)
  then show ?thesis unfolding midiToFreq_def by (simp only: mult.assoc)
qed

lemma midiToFreq_strict_mono: "a < b \<Longrightarrow> midiToFreq a < midiToFreq b"
  by (simp add: midiToFreq_def divide_strict_right_mono)

text \<open>
  Claim C6. For a string index below 5 and a fret \<open>fret\<close>, the frequency
  \<^verbatim>\<open>midiToFreq(OPEN_MIDI[str] + fret)\<close> that \<^verbatim>\<open>scheduleNote\<close> computes is
  multiplied by exactly \<open>2 powr (1/12)\<close> when the fret goes up by one, and it is strictly
  increasing in the fret. Stated over exact real arithmetic.
\<close>

theorem pitch_semitone:
  assumes "str < 5"
  shows "midiToFreq (real_of_int (OPEN_MIDI ! str + int (Suc fret)))
           = midiToFreq (real_of_int (OPEN_MIDI ! str + int fret)) * 2 powr (1 / 12)
       \<and> (fret < fret' \<longrightarrow>
            midiToFreq (real_of_int (OPEN_MIDI ! str + int fret))
              < midiToFreq (real_of_int (OPEN_MIDI ! str + int fret')))"
proof -
  have "real_of_int (OPEN_MIDI ! str + int (Suc fret))
          = real_of_int (OPEN_MIDI ! str + int fret) + 1"
    by simp
  then have a: "midiToFreq (real_of_int (OPEN_MIDI ! str + int (Suc fret)))
           = midiToFreq (real_of_int (OPEN_MIDI ! str + int fret)) * 2 powr (1 / 12)"
    by (simp only: semitone_step)
  have b: "fret < fret' \<longrightarrow>
            midiToFreq (real_of_int (OPEN_MIDI ! str + int fret))
              < midiToFreq (real_of_int (OPEN_MIDI ! str + int fret'))"
    by (auto intro!: midiToFreq_strict_mono)
  from a b show ?thesis by blast
qed

theorem pitch_semitone_witness:
  "(0::nat) < 5
   \<and> midiToFreq (real_of_int (OPEN_MIDI ! 0 + int (Suc 2)))
       = midiToFreq (real_of_int (OPEN_MIDI ! 0 + int 2)) * 2 powr (1 / 12)
   \<and> midiToFreq 76 < midiToFreq 79"
  using pitch_semitone [of 0 2 5] by (simp add: OPEN_MIDI_def)

section \<open>How the sequencer's functions change the state\<close>

lemma getAudioCtx_snd: "snd (getAudioCtx s) = s\<lparr>audioCtx := Some (fst (getAudioCtx s))\<rparr>"
  by (simp add: getAudioCtx_def Let_def split: option.splits)

lemma getAudioCtx_fields [simp]:
  "isPlaying (snd (getAudioCtx s)) = isPlaying s"
  "currentBpm (snd (getAudioCtx s)) = currentBpm s"
  "currentMeasures (snd (getAudioCtx s)) = currentMeasures s"
  "currentPlayOpts (snd (getAudioCtx s)) = currentPlayOpts s"
  "masterOnStop (snd (getAudioCtx s)) = masterOnStop s"
  "nextNoteTime (snd (getAudioCtx s)) = nextNoteTime s"
  "currentMeasure (snd (getAudioCtx s)) = currentMeasure s"
  "currentPos (snd (getAudioCtx s)) = currentPos s"
  "timerID (snd (getAudioCtx s)) = timerID s"
  "wall (snd (getAudioCtx s)) = wall s"
  "pending (snd (getAudioCtx s)) = pending s"
  "nextId (snd (getAudioCtx s)) = nextId s"
  "calls (snd (getAudioCtx s)) = calls s"
  "fired (snd (getAudioCtx s)) = fired s"
  by (simp_all add: getAudioCtx_def Let_def split: option.splits)

lemma emits_refl: "emits P s s"
  unfolding emits_def by (rule exI [of _ "[]"]) simp

lemma emits_trans: "emits P s s' \<Longrightarrow> emits P s' s'' \<Longrightarrow> emits P s s''"
  unfolding emits_def
proof (elim exE conjE)
  fix new new'
  assume a: "s' = s\<lparr>calls := calls s @ new\<rparr>" "\<forall>c\<in>set new. P c"
    and b: "s'' = s'\<lparr>calls := calls s' @ new'\<rparr>" "\<forall>c\<in>set new'. P c"
  show "\<exists>new. s'' = s\<lparr>calls := calls s @ new\<rparr> \<and> (\<forall>c\<in>set new. P c)"
    using a b by (intro exI [of _ "new @ new'"]) auto
qed

lemma emits_weaken: "emits P s s' \<Longrightarrow> (\<And>c. P c \<Longrightarrow> Q c) \<Longrightarrow> emits Q s s'"
  unfolding emits_def by blast

lemma schedule_string_emits:
  "emits (\<lambda>c. call_pos c = (m, p) \<and> call_time c = t \<and> \<not> is_click c) s
     (state_of (schedule_string m p t g str s))"
  unfolding emits_def schedule_string_def pluckString_def
  by (cases "cell_at g str p"; cases "classify (projr (cell_at g str p))")
     (auto simp: Let_def call_pos_def call_time_def intro: exI [of _ "[]"])

lemma for_strings_emits:
  "emits (\<lambda>c. call_pos c = (m, p) \<and> call_time c = t \<and> \<not> is_click c) s
     (state_of (for_strings strs (schedule_string m p t g) s))"
proof (induction strs arbitrary: s)
  case Nil
  show ?case by (simp add: emits_refl)
next
  case (Cons str strs)
  have h: "emits (\<lambda>c. call_pos c = (m, p) \<and> call_time c = t \<and> \<not> is_click c) s
             (state_of (schedule_string m p t g str s))"
    by (rule schedule_string_emits)
  show ?case
  proof (cases "schedule_string m p t g str s")
    case (Normal s')
    with h have "emits (\<lambda>c. call_pos c = (m, p) \<and> call_time c = t \<and> \<not> is_click c) s s'" by simp
    moreover have "emits (\<lambda>c. call_pos c = (m, p) \<and> call_time c = t \<and> \<not> is_click c) s'
                     (state_of (for_strings strs (schedule_string m p t g) s'))"
      by (rule Cons.IH)
    ultimately show ?thesis using Normal by (simp add: emits_trans)
  next
    case (Throw e s')
    with h show ?thesis by simp
  qed
qed

text \<open>The state after the metronome part of \<^verbatim>\<open>scheduleNote\<close>, and the call as a whole.\<close>

lemma scheduleNote_split:
  fixes m p t s0
  defines "s \<equiv> snd (getAudioCtx s0)"
  defines "acc \<equiv> accentDownbeat (currentPlayOpts s) \<noteq> Some False \<and> p div 4 = 0"
  defines "s1 \<equiv> (if p mod 4 = 0 \<and> enabled (currentPlayOpts s) = Some True
     then metronomeClick (m, p) t acc
            (case metroPitch (currentPlayOpts s) of Some p \<Rightarrow> p | None \<Rightarrow> 1.0) s
     else s)"
  shows "emits (\<lambda>c. call_pos c = (m, p) \<and> call_time c = t \<and> \<not> is_click c) s1
           (state_of (scheduleNote m p t s0))"
proof -
  have eq: "scheduleNote m p t s0 =
      (if m \<ge> length (currentMeasures s1) then Normal s1
       else for_strings [0, 1, 2, 3, 4] (schedule_string m p t (currentMeasures s1 ! m)) s1)"
    unfolding scheduleNote_def s1_def s_def acc_def Let_def ..
  show ?thesis
    unfolding eq by (simp add: emits_refl for_strings_emits del: for_strings.simps)
qed

lemma metronomeClick_emits:
  "emits (\<lambda>c. call_pos c = (m, p) \<and> call_time c = t) s (metronomeClick (m, p) t a pitch s)"
  unfolding emits_def metronomeClick_def
  by (intro exI [of _ "[((m, p), Click t a ((if a then 500 else 800) * pitch) (if a then 0.8 else 0.5))]"])
     (simp add: Let_def call_pos_def call_time_def)

lemma scheduleNote_emits:
  "emits (\<lambda>c. call_pos c = (m, p) \<and> call_time c = t) (snd (getAudioCtx s0))
     (state_of (scheduleNote m p t s0))"
proof -
  define s where "s = snd (getAudioCtx s0)"
  define s1 where "s1 =
    (if p mod 4 = 0 \<and> enabled (currentPlayOpts s) = Some True
     then metronomeClick (m, p) t (accentDownbeat (currentPlayOpts s) \<noteq> Some False \<and> p div 4 = 0)
            (case metroPitch (currentPlayOpts s) of Some p \<Rightarrow> p | None \<Rightarrow> 1.0) s
     else s)"
  have a: "emits (\<lambda>c. call_pos c = (m, p) \<and> call_time c = t) s s1"
    unfolding s1_def by (simp add: emits_refl metronomeClick_emits)
  have "emits (\<lambda>c. call_pos c = (m, p) \<and> call_time c = t \<and> \<not> is_click c) s1
          (state_of (scheduleNote m p t s0))"
    unfolding s1_def s_def by (rule scheduleNote_split)
  then have b: "emits (\<lambda>c. call_pos c = (m, p) \<and> call_time c = t) s1 (state_of (scheduleNote m p t s0))"
    by (rule emits_weaken) simp
  from a b show ?thesis unfolding s_def by (rule emits_trans)
qed

lemma sorted_map_const: "\<forall>c\<in>set xs. f c = k \<Longrightarrow> sorted (map f xs)"
  by (induction xs) auto

lemma session_inv_frame:
  assumes "session_inv old t0 bpm s"
    and "currentBpm s' = currentBpm s" "currentPos s' = currentPos s"
    and "currentMeasure s' = currentMeasure s" "nextNoteTime s' = nextNoteTime s"
    and "calls s' = calls s"
  shows "session_inv old t0 bpm s'"
  using assms unfolding session_inv_def by simp

lemma session_inv_getAudioCtx:
  "session_inv old t0 bpm s \<Longrightarrow> session_inv old t0 bpm (snd (getAudioCtx s))"
  by (erule session_inv_frame) simp_all

lemma session_inv_emits:
  assumes inv: "session_inv old t0 bpm s"
    and em: "emits (\<lambda>c. call_pos c = (currentMeasure s, currentPos s) \<and> call_time c = nextNoteTime s) s s'"
  shows "session_inv old t0 bpm s'"
proof -
  from em obtain new' where s': "s' = s\<lparr>calls := calls s @ new'\<rparr>"
    and new': "\<forall>c\<in>set new'. call_pos c = (currentMeasure s, currentPos s) \<and> call_time c = nextNoteTime s"
    unfolding emits_def by blast
  from inv obtain new where new: "calls s = old @ new"
    "sorted (map (grid_index \<circ> call_pos) new)"
    "\<forall>c\<in>set new. snd (call_pos c) < 16
        \<and> grid_index (call_pos c) \<le> grid_index (currentMeasure s, currentPos s)
        \<and> call_time c = t0 + real (grid_index (call_pos c)) * sixteenth bpm"
    and rest: "currentBpm s = bpm" "currentPos s < 16"
      "nextNoteTime s = t0 + real (grid_index (currentMeasure s, currentPos s)) * sixteenth bpm"
    unfolding session_inv_def by blast
  have srt: "sorted (map (grid_index \<circ> call_pos) (new @ new'))"
  proof -
    have "sorted (map (grid_index \<circ> call_pos) new')"
      using new' by (intro sorted_map_const [of _ _ "grid_index (currentMeasure s, currentPos s)"]) simp
    then show ?thesis using new(2,3) new' by (auto simp: sorted_append)
  qed
  have all: "\<forall>c\<in>set (new @ new'). snd (call_pos c) < 16
        \<and> grid_index (call_pos c) \<le> grid_index (currentMeasure s, currentPos s)
        \<and> call_time c = t0 + real (grid_index (call_pos c)) * sixteenth bpm"
    using new(3) new' rest by auto
  show ?thesis
    unfolding session_inv_def s'
    using rest srt all new(1) by (intro conjI exI [of _ "new @ new'"]) simp_all
qed

lemma session_inv_nextNote:
  assumes inv: "session_inv old t0 bpm s"
  shows "session_inv old t0 bpm (nextNote s)"
proof -
  from inv obtain new where new: "calls s = old @ new"
    "sorted (map (grid_index \<circ> call_pos) new)"
    "\<forall>c\<in>set new. snd (call_pos c) < 16
        \<and> grid_index (call_pos c) \<le> grid_index (currentMeasure s, currentPos s)
        \<and> call_time c = t0 + real (grid_index (call_pos c)) * sixteenth bpm"
    and rest: "currentBpm s = bpm" "currentPos s < 16"
      "nextNoteTime s = t0 + real (grid_index (currentMeasure s, currentPos s)) * sixteenth bpm"
    unfolding session_inv_def by blast
  have idx: "grid_index (currentMeasure (nextNote s), currentPos (nextNote s))
               = grid_index (currentMeasure s, currentPos s) + 1"
    using rest(2) by (simp add: nextNote_def grid_index_def Let_def)
  have pos: "currentPos (nextNote s) < 16"
    using rest(2) by (simp add: nextNote_def Let_def)
  have tm: "nextNoteTime (nextNote s) = nextNoteTime s + sixteenth bpm"
    using rest(1) by (simp add: nextNote_def Let_def sixteenth_def)
  have c: "calls (nextNote s) = calls s" "currentBpm (nextNote s) = currentBpm s"
    by (simp_all add: nextNote_def Let_def)
  show ?thesis
    unfolding session_inv_def idx c
    using rest new pos tm
    by (intro conjI exI [of _ new]) (auto simp: algebra_simps)
qed

lemmas scheduler_induct = scheduler.raw_induct [rotated 1, consumes 1, case_names pass]

lemma session_inv_scheduler:
  assumes "scheduler s = Some r"
  shows "session_inv old t0 bpm s \<Longrightarrow> session_inv old t0 bpm (state_of r)"
  using assms
proof (induction rule: scheduler_induct)
  case (pass sched s0 r)
  define s where "s = snd (getAudioCtx s0)"
  have inv_s: "session_inv old t0 bpm s"
    unfolding s_def using pass.prems by (rule session_inv_getAudioCtx)
  note body = pass.hyps [unfolded Let_def, folded s_def]
  show ?case
  proof (cases "nextNoteTime s < currentTime (fst (getAudioCtx s0)) + SCHEDULE_AHEAD_TIME")
    case False
    with body have "r = Normal ((snd (setTimeout SchedulerWake LOOKAHEAD s))\<lparr>timerID := Some (fst (setTimeout SchedulerWake LOOKAHEAD s))\<rparr>)"
      by simp
    then show ?thesis using inv_s
      by (auto elim!: session_inv_frame simp: setTimeout_def)
  next
    case True
    note within = this
    show ?thesis
    proof (cases "length (currentMeasures s) \<le> currentMeasure s")
      case True
      with within body have "r = Normal (snd (setTimeout DrainEnd ((nextNoteTime s - currentTime (fst (getAudioCtx s0))) * 1000 + 3500) s))"
        by simp
      then show ?thesis using inv_s
        by (auto elim!: session_inv_frame simp: setTimeout_def)
    next
      case False
      define c where "c = scheduleNote (currentMeasure s) (currentPos s) (nextNoteTime s) s"
      have "emits (\<lambda>c. call_pos c = (currentMeasure s, currentPos s) \<and> call_time c = nextNoteTime s)
              (snd (getAudioCtx s)) (state_of c)"
        unfolding c_def by (rule scheduleNote_emits)
      moreover have "session_inv old t0 bpm (snd (getAudioCtx s))"
        using inv_s by (rule session_inv_getAudioCtx)
      moreover have "currentMeasure (snd (getAudioCtx s)) = currentMeasure s"
        "currentPos (snd (getAudioCtx s)) = currentPos s"
        "nextNoteTime (snd (getAudioCtx s)) = nextNoteTime s"
        by simp_all
      ultimately have inv_c: "session_inv old t0 bpm (state_of c)"
        using session_inv_emits [of old t0 bpm "snd (getAudioCtx s)" "state_of c"] by simp
      show ?thesis
      proof (cases c)
        case (Throw e s')
        with within False body have "r = Throw e s'" by (simp add: c_def)
        with inv_c Throw show ?thesis by simp
      next
        case (Normal s')
        with within False body have "sched (nextNote s') = Some r" by (simp add: c_def)
        moreover have "session_inv old t0 bpm (nextNote s')"
          using inv_c Normal by (simp add: session_inv_nextNote)
        ultimately show ?thesis by (rule pass.IH)
      qed
    qed
  qed
qed


lemma scheduler_idle:
  assumes "audioCtx s = Some c" and "\<not> nextNoteTime s < currentTime c + SCHEDULE_AHEAD_TIME"
  shows "scheduler s = Some (Normal ((snd (setTimeout SchedulerWake LOOKAHEAD s))\<lparr>timerID := Some (nextId s)\<rparr>))"
  using assms by (subst scheduler.simps) (simp add: getAudioCtx_def setTimeout_def Let_def)

lemma stopSong_frame:
  "stopSong s = s\<lparr>isPlaying := False,
       pending := (case timerID s of None \<Rightarrow> pending s | Some n \<Rightarrow> filter (\<lambda>t. tid t \<noteq> n) (pending s)),
       audioCtx := None\<rparr>"
  by (simp add: stopSong_def clearTimeout_def Let_def split: option.splits)

lemma playSong_result:
  "\<exists>c. playSong ms bpm cb opts s =
     Some (Normal ((before_play s)
       \<lparr>audioCtx := Some c, isPlaying := True, currentBpm := bpm, currentMeasures := ms,
        currentPlayOpts := opts, masterOnStop := cb, currentMeasure := 0, currentPos := 0,
        nextNoteTime := currentTime c + 0.1,
        pending := pending (before_play s) @
           [\<lparr>tid = nextId s, due = wall s + 0.025, kind = SchedulerWake\<rparr>],
        nextId := nextId s + 1, timerID := Some (nextId s)\<rparr>))"
proof -
  define s1 where "s1 = before_play s"
  define ctx where "ctx = fst (getAudioCtx s1)"
  define s2 where "s2 = (snd (getAudioCtx s1))
                 \<lparr>isPlaying := True, currentBpm := bpm, currentMeasures := ms,
                  currentPlayOpts := opts, masterOnStop := cb,
                  currentMeasure := 0, currentPos := 0,
                  nextNoteTime := currentTime ctx + 0.1\<rparr>"
  define s3 where "s3 = updateAudioSettings
                 (case banjoVolume opts of Some v \<Rightarrow> v | None \<Rightarrow> 0.5)
                 (case metroVolume opts of Some v \<Rightarrow> v | None \<Rightarrow> 0.5)
                 (case metroPitch opts of Some v \<Rightarrow> v | None \<Rightarrow> 1.0)
                 (enabled opts = Some True)
                 (accentDownbeat opts \<noteq> Some False) s2"
  have eq: "playSong ms bpm cb opts s = scheduler s3"
    unfolding playSong_def s3_def s2_def ctx_def s1_def before_play_def Let_def ..
  have ctx2: "audioCtx s2 = Some ctx"
    unfolding s2_def ctx_def by (simp add: getAudioCtx_def Let_def split: option.splits)
  obtain c where c: "audioCtx s3 = Some c" "currentTime c = currentTime ctx"
    "s3 = s2\<lparr>audioCtx := Some c\<rparr>"
    unfolding s3_def using ctx2 by (simp add: updateAudioSettings_def Let_def)
  have nnt: "nextNoteTime s3 = currentTime c + 0.1"
    using c by (simp add: s2_def)
  have "scheduler s3 = Some (Normal ((snd (setTimeout SchedulerWake LOOKAHEAD s3))\<lparr>timerID := Some (nextId s3)\<rparr>))"
    using c(1) by (rule scheduler_idle) (simp add: nnt SCHEDULE_AHEAD_TIME_def)
  moreover have "(snd (setTimeout SchedulerWake LOOKAHEAD s3))\<lparr>timerID := Some (nextId s3)\<rparr>
    = (before_play s)
       \<lparr>audioCtx := Some c, isPlaying := True, currentBpm := bpm, currentMeasures := ms,
        currentPlayOpts := opts, masterOnStop := cb, currentMeasure := 0, currentPos := 0,
        nextNoteTime := currentTime c + 0.1,
        pending := pending (before_play s) @
           [\<lparr>tid = nextId s, due = wall s + 0.025, kind = SchedulerWake\<rparr>],
        nextId := nextId s + 1, timerID := Some (nextId s)\<rparr>"
    unfolding c(3) s2_def s1_def [symmetric] c(2) [symmetric]
    by (simp add: setTimeout_def LOOKAHEAD_def getAudioCtx_snd s1_def before_play_def stopSong_frame)
  ultimately show ?thesis unfolding eq by auto
qed



lemma session_inv_step:
  assumes "quiet e" and "step e s = Some s'" and inv: "session_inv old t0 bpm s"
  shows "session_inv old t0 bpm s'"
proof (cases e)
  case (Play ms b cb opts)
  with assms(1) show ?thesis by simp
next
  case Stop
  with assms(1) show ?thesis by simp
next
  case (UpdateSettings bVol mVol mPitch mEnabled mAccent)
  with assms(2) have "s' = updateAudioSettings bVol mVol mPitch mEnabled mAccent s" by simp
  then show ?thesis using inv
    by (auto elim!: session_inv_frame simp: updateAudioSettings_def Let_def split: option.splits)
next
  case (Tick dt adt)
  with assms(2) show ?thesis using inv
    by (auto elim!: session_inv_frame split: if_splits)
next
  case (Fire i)
  with assms(2) have f: "fire i s = Some s'" by simp
  then obtain t where t: "find (\<lambda>t. tid t = i) (pending s) = Some t"
    by (auto simp: fire_def split: option.splits)
  define s1 where "s1 = s\<lparr>pending := filter (\<lambda>t. tid t \<noteq> i) (pending s)\<rparr>"
  have inv1: "session_inv old t0 bpm s1"
    using inv unfolding s1_def by (rule session_inv_frame) simp_all
  show ?thesis
  proof (cases "kind t")
    case SchedulerWake
    with f t obtain r where "scheduler s1 = Some r" "s' = state_of r"
      by (auto simp: fire_def s1_def Let_def split: if_splits)
    then show ?thesis using inv1 by (simp add: session_inv_scheduler)
  next
    case DrainEnd
    with f t have "s' = drain_callback s1"
      by (auto simp: fire_def s1_def Let_def split: if_splits)
    then show ?thesis using inv1
      by (auto elim!: session_inv_frame simp: drain_callback_def Let_def split: option.splits)
  qed
qed

lemma session_inv_run:
  assumes "\<forall>e\<in>set evs. quiet e" and "run evs s = Some s'" and "session_inv old t0 bpm s"
  shows "session_inv old t0 bpm s'"
  using assms
proof (induction evs arbitrary: s)
  case Nil
  then show ?case by simp
next
  case (Cons e evs)
  from Cons.prems(2) obtain s1 where s1: "step e s = Some s1" "run evs s1 = Some s'"
    by (auto split: option.splits)
  have "session_inv old t0 bpm s1"
    using Cons.prems(1) s1(1) Cons.prems(3) by (auto intro: session_inv_step)
  then show ?case using Cons.IH Cons.prems(1) s1(2) by auto
qed

lemma session_inv_play:
  assumes "step (Play ms bpm cb opts) s = Some s1"
  shows "session_inv (calls s) (nextNoteTime s1) bpm s1"
proof -
  obtain c where "playSong ms bpm cb opts s =
     Some (Normal ((before_play s)
       \<lparr>audioCtx := Some c, isPlaying := True, currentBpm := bpm, currentMeasures := ms,
        currentPlayOpts := opts, masterOnStop := cb, currentMeasure := 0, currentPos := 0,
        nextNoteTime := currentTime c + 0.1,
        pending := pending (before_play s) @
           [\<lparr>tid = nextId s, due = wall s + 0.025, kind = SchedulerWake\<rparr>],
        nextId := nextId s + 1, timerID := Some (nextId s)\<rparr>))"
    using playSong_result by blast
  with assms have "s1 = (before_play s)
       \<lparr>audioCtx := Some c, isPlaying := True, currentBpm := bpm, currentMeasures := ms,
        currentPlayOpts := opts, masterOnStop := cb, currentMeasure := 0, currentPos := 0,
        nextNoteTime := currentTime c + 0.1,
        pending := pending (before_play s) @
           [\<lparr>tid = nextId s, due = wall s + 0.025, kind = SchedulerWake\<rparr>],
        nextId := nextId s + 1, timerID := Some (nextId s)\<rparr>"
    by simp
  then show ?thesis
    by (simp add: session_inv_def grid_index_def before_play_def stopSong_frame)
qed


lemma sixteenth_pos: "0 < bpm \<Longrightarrow> 0 < sixteenth bpm"
  by (simp add: sixteenth_def)


section \<open>Start times within a session\<close>

text \<open>The definitions a concrete session is evaluated with.\<close>

lemmas eng_defs = playSong_def stopSong_def getAudioCtx_def updateAudioSettings_def
  setTimeout_def clearTimeout_def fire_def drain_callback_def scheduleNote_def
  schedule_string_def cell_at_def classify_def nextNote_def metronomeClick_def pluckString_def
  SCHEDULE_AHEAD_TIME_def LOOKAHEAD_def initial_def no_opts_def Let_def
  parseInt10_def is_ws_def is_digit_def digits_value_def digit_val_def OPEN_MIDI_def measure_G_def

lemma session_inv_calls_since:
  assumes "session_inv old t0 bpm s" and "c \<in> set (calls_since (length old) s)"
  shows "snd (call_pos c) < 16"
    and "call_time c = t0 + real (grid_index (call_pos c)) * sixteenth bpm"
  using assms unfolding session_inv_def calls_since_def by auto


lemma grid_index_inj:
  "snd a < 16 \<Longrightarrow> snd b < 16 \<Longrightarrow> grid_index a = grid_index b \<Longrightarrow> a = b"
proof -
  assume h: "snd a < 16" "snd b < 16" "grid_index a = grid_index b"
  then have e: "16 * fst a + snd a = 16 * fst b + snd b" by (simp add: grid_index_def)
  from h(1,2) e have "fst a = fst b" by presburger
  moreover from this e have "snd a = snd b" by simp
  ultimately show "a = b" by (simp add: prod_eq_iff)
qed

text \<open>
  Claim C8, as amended. In a session as above the start times of two sounds, the second
  scheduled later, are never decreasing, and the later one is strictly greater exactly
  when the two sounds were issued for different grid positions: the sounds of one
  position (the strings of a strum, the click) share their start time.
\<close>

theorem session_order_between_positions:
  assumes "0 < bpm"
    and "step (Play allMeasures bpm onStop opts) s = Some s1"
    and "\<forall>e\<in>set evs. quiet e" and "run evs s1 = Some s2"
    and "i < j" and "j < length (calls_since (length (calls s)) s2)"
  shows "call_time (calls_since (length (calls s)) s2 ! i)
           \<le> call_time (calls_since (length (calls s)) s2 ! j)
       \<and> (call_time (calls_since (length (calls s)) s2 ! i)
            < call_time (calls_since (length (calls s)) s2 ! j))
         = (call_pos (calls_since (length (calls s)) s2 ! i)
            \<noteq> call_pos (calls_since (length (calls s)) s2 ! j))"
proof -
  define new where "new = calls_since (length (calls s)) s2"
  define t0 where "t0 = nextNoteTime s1"
  have inv1: "session_inv (calls s) t0 bpm s1"
    unfolding t0_def using assms(2) by (rule session_inv_play)
  have inv: "session_inv (calls s) t0 bpm s2"
    using assms(3,4) inv1 by (rule session_inv_run)
  have mem: "new ! i \<in> set new" "new ! j \<in> set new"
    using assms(5,6) unfolding new_def by simp_all
  have srt: "sorted (map (grid_index \<circ> call_pos) new)"
    using inv unfolding session_inv_def new_def calls_since_def by auto
  have le: "grid_index (call_pos (new ! i)) \<le> grid_index (call_pos (new ! j))"
    using sorted_nth_mono [OF srt, of i j] assms(5,6) unfolding new_def by simp
  have ti: "call_time (new ! i) = t0 + real (grid_index (call_pos (new ! i))) * sixteenth bpm"
    and tj: "call_time (new ! j) = t0 + real (grid_index (call_pos (new ! j))) * sixteenth bpm"
    and pi: "snd (call_pos (new ! i)) < 16" and pj: "snd (call_pos (new ! j)) < 16"
    using session_inv_calls_since [OF inv] mem unfolding new_def by simp_all
  have d: "0 < sixteenth bpm" using assms(1) by (rule sixteenth_pos)
  have a: "call_time (new ! i) \<le> call_time (new ! j)"
    unfolding ti tj using le d by simp
  have "(call_time (new ! i) < call_time (new ! j))
          = (grid_index (call_pos (new ! i)) < grid_index (call_pos (new ! j)))"
    unfolding ti tj using d by simp
  also have "\<dots> = (grid_index (call_pos (new ! i)) \<noteq> grid_index (call_pos (new ! j)))"
    using le by auto
  also have "\<dots> = (call_pos (new ! i) \<noteq> call_pos (new ! j))"
    using grid_index_inj [OF pi pj] by auto
  finally show ?thesis using a unfolding new_def by simp
qed



text \<open>
  The strum on position 0 of \<^verbatim>\<open>generateMeasure('G', 'easy', 0)\<close>: four sounds, one
  start time.
\<close>

theorem strictly_increasing_counterexample:
  "map_option (map call_time \<circ> calls)
     (run [Play [measure_G] 120 None no_opts, Tick 0.025 0.025, Fire 0] initial)
   = Some [1 / 10, 1 / 10, 1 / 10, 1 / 10]"
  by (simp add: eng_defs scheduler.simps call_time_def)

theorem session_order_between_positions_witness:
  "\<exists>s1 s2.
      (0::real) < 120
    \<and> step (Play [measure_G] 120 None no_opts) initial = Some s1
    \<and> run [Tick 0.55 0.55, Fire 0] s1 = Some s2
    \<and> (0::nat) < 4 \<and> 4 < length (calls_since (length (calls initial)) s2)
    \<and> call_pos (calls_since (length (calls initial)) s2 ! 0) = (0, 0)
    \<and> call_pos (calls_since (length (calls initial)) s2 ! 4) = (0, 4)
    \<and> call_time (calls_since (length (calls initial)) s2 ! 0)
        < call_time (calls_since (length (calls initial)) s2 ! 4)"
proof -
  have "\<exists>s1. step (Play [measure_G] 120 None no_opts) initial = Some s1
      \<and> (\<exists>s2. run [Tick 0.55 0.55, Fire 0] s1 = Some s2
           \<and> 4 < length (calls_since (length (calls initial)) s2)
           \<and> call_pos (calls_since (length (calls initial)) s2 ! 0) = (0, 0)
           \<and> call_pos (calls_since (length (calls initial)) s2 ! 4) = (0, 4))"
    by (simp add: eng_defs scheduler.simps calls_since_def call_pos_def)
  then obtain s1 s2 where r:
    "step (Play [measure_G] 120 None no_opts) initial = Some s1"
    "run [Tick 0.55 0.55, Fire 0] s1 = Some s2"
    and p: "4 < length (calls_since (length (calls initial)) s2)"
      "call_pos (calls_since (length (calls initial)) s2 ! 0) = (0, 0)"
      "call_pos (calls_since (length (calls initial)) s2 ! 4) = (0, 4)"
    by blast
  have q: "\<forall>e\<in>set [Tick 0.55 0.55, Fire 0]. quiet e" by simp
  have pos: "(0::real) < 120" and lt: "(0::nat) < 4" by simp_all
  from session_order_between_positions [OF pos r(1) q r(2) lt p(1)] p r show ?thesis
    by (intro exI [of _ s1] exI [of _ s2]) simp
qed

section \<open>Metronome placement\<close>

text \<open>
  What one call of \<^verbatim>\<open>scheduleNote\<close> logs: calls for its position only, among them
  one click if the position is a multiple of 4 and \<^verbatim>\<open>playOpts.enabled === true\<close>,
  and no click otherwise.
\<close>

lemma scheduleNote_added:
  "\<exists>added. state_of (scheduleNote m p t s0) = (snd (getAudioCtx s0))\<lparr>calls := calls s0 @ added\<rparr>
    \<and> (\<forall>c\<in>set added. call_pos c = (m, p))
    \<and> filter is_click added =
         (if p mod 4 = 0 \<and> enabled (currentPlayOpts s0) = Some True
          then [((m, p),
                 Click t (accentDownbeat (currentPlayOpts s0) \<noteq> Some False \<and> p = 0)
                   ((if accentDownbeat (currentPlayOpts s0) \<noteq> Some False \<and> p = 0
                     then 500 else 800)
                    * (case metroPitch (currentPlayOpts s0) of Some x \<Rightarrow> x | None \<Rightarrow> 1))
                   (if accentDownbeat (currentPlayOpts s0) \<noteq> Some False \<and> p = 0
                    then 0.8 else 0.5))]
          else [])"
proof -
  define s where "s = snd (getAudioCtx s0)"
  define acc where "acc = (accentDownbeat (currentPlayOpts s) \<noteq> Some False \<and> p div 4 = 0)"
  define s1 where "s1 = (if p mod 4 = 0 \<and> enabled (currentPlayOpts s) = Some True
     then metronomeClick (m, p) t acc
            (case metroPitch (currentPlayOpts s) of Some p \<Rightarrow> p | None \<Rightarrow> 1.0) s
     else s)"
  define click where "click =
       (if p mod 4 = 0 \<and> enabled (currentPlayOpts s0) = Some True
        then [((m, p), Click t acc ((if acc then 500 else 800)
                * (case metroPitch (currentPlayOpts s0) of Some x \<Rightarrow> x | None \<Rightarrow> 1))
                (if acc then 0.8 else 0.5))]
        else [])"
  have "emits (\<lambda>c. call_pos c = (m, p) \<and> call_time c = t \<and> \<not> is_click c) s1
           (state_of (scheduleNote m p t s0))"
    unfolding s1_def acc_def s_def by (rule scheduleNote_split)
  then obtain plucks where plucks:
    "state_of (scheduleNote m p t s0) = s1\<lparr>calls := calls s1 @ plucks\<rparr>"
    "\<forall>c\<in>set plucks. call_pos c = (m, p) \<and> call_time c = t \<and> \<not> is_click c"
    unfolding emits_def by blast
  have acc0: "p mod 4 = 0 \<Longrightarrow> acc = (accentDownbeat (currentPlayOpts s0) \<noteq> Some False \<and> p = 0)"
    unfolding acc_def s_def by auto
  have c1: "s1 = s\<lparr>calls := calls s0 @ click\<rparr>"
    unfolding s1_def s_def click_def
    by (simp add: metronomeClick_def Let_def split: option.splits)
  have a: "state_of (scheduleNote m p t s0) = s\<lparr>calls := calls s0 @ (click @ plucks)\<rparr>"
    unfolding plucks(1) c1 by simp
  have b: "\<forall>c\<in>set (click @ plucks). call_pos c = (m, p)"
  proof -
    have "\<forall>c\<in>set click. call_pos c = (m, p)"
      unfolding click_def by (simp add: call_pos_def)
    moreover have "\<forall>c\<in>set plucks. call_pos c = (m, p)"
      using plucks(2) by blast
    ultimately show ?thesis by (simp add: ball_Un)
  qed
  have "filter is_click plucks = []"
    using plucks(2) by (simp add: filter_empty_conv)
  moreover have "filter is_click click = click"
    unfolding click_def by simp
  ultimately have c: "filter is_click (click @ plucks) = click" by simp
  have d: "click =
         (if p mod 4 = 0 \<and> enabled (currentPlayOpts s0) = Some True
          then [((m, p),
                 Click t (accentDownbeat (currentPlayOpts s0) \<noteq> Some False \<and> p = 0)
                   ((if accentDownbeat (currentPlayOpts s0) \<noteq> Some False \<and> p = 0
                     then 500 else 800)
                    * (case metroPitch (currentPlayOpts s0) of Some x \<Rightarrow> x | None \<Rightarrow> 1))
                   (if accentDownbeat (currentPlayOpts s0) \<noteq> Some False \<and> p = 0
                    then 0.8 else 0.5))]
          else [])"
  proof (cases "p mod 4 = 0")
    case True
    show ?thesis unfolding click_def acc0 [OF True] ..
  next
    case False
    then show ?thesis unfolding click_def by simp
  qed
  show ?thesis
  proof (intro exI [of _ "click @ plucks"] conjI)
    show "state_of (scheduleNote m p t s0) = snd (getAudioCtx s0)\<lparr>calls := calls s0 @ click @ plucks\<rparr>"
      using a unfolding s_def .
    show "\<forall>c\<in>set (click @ plucks). call_pos c = (m, p)" by (rule b)
    show "filter is_click (click @ plucks) =
         (if p mod 4 = 0 \<and> enabled (currentPlayOpts s0) = Some True
          then [((m, p),
                 Click t (accentDownbeat (currentPlayOpts s0) \<noteq> Some False \<and> p = 0)
                   ((if accentDownbeat (currentPlayOpts s0) \<noteq> Some False \<and> p = 0
                     then 500 else 800)
                    * (case metroPitch (currentPlayOpts s0) of Some x \<Rightarrow> x | None \<Rightarrow> 1))
                   (if accentDownbeat (currentPlayOpts s0) \<noteq> Some False \<and> p = 0
                    then 0.8 else 0.5))]
          else [])"
      unfolding c by (rule d)
  qed
qed

text \<open>
  \<^verbatim>\<open>scheduleNote\<close> completes unless the measure it reads has fewer than five rows, in
  which case \<^verbatim>\<open>measure[str][pos]\<close> throws.
\<close>

lemma schedule_string_normal:
  "str < length g \<Longrightarrow> \<exists>s'. schedule_string m p t g str s = Normal s'"
  by (simp add: schedule_string_def cell_at_def Let_def split: cell_kind.splits)

lemma schedule_string_throws:
  "\<not> str < length g \<Longrightarrow> \<exists>e. schedule_string m p t g str s = Throw e s"
  by (simp add: schedule_string_def cell_at_def)

lemma for_strings_normal:
  "\<forall>str\<in>set strs. str < length g \<Longrightarrow> \<exists>s'. for_strings strs (schedule_string m p t g) s = Normal s'"
proof (induction strs arbitrary: s)
  case Nil
  show ?case by simp
next
  case (Cons str strs)
  then obtain s1 where "schedule_string m p t g str s = Normal s1"
    using schedule_string_normal [of str g m p t s] by auto
  then show ?case using Cons by simp
qed

lemma for_strings_throws:
  "\<exists>str\<in>set strs. \<not> str < length g \<Longrightarrow> \<exists>e s'. for_strings strs (schedule_string m p t g) s = Throw e s'"
proof (induction strs arbitrary: s)
  case Nil
  then show ?case by simp
next
  case (Cons str strs)
  show ?case
  proof (cases "schedule_string m p t g str s")
    case (Throw e s')
    then show ?thesis by simp
  next
    case (Normal s1)
    have "str < length g"
    proof (rule ccontr)
      assume "\<not> str < length g"
      then obtain e where "schedule_string m p t g str s = Throw e s"
        using schedule_string_throws by blast
      with Normal show False by simp
    qed
    with Cons.prems have "\<exists>str\<in>set strs. \<not> str < length g" by auto
    then have "\<exists>e s'. for_strings strs (schedule_string m p t g) s1 = Throw e s'"
      by (rule Cons.IH)
    then show ?thesis using Normal by simp
  qed
qed

lemma scheduleNote_completes:
  "(\<exists>s'. scheduleNote m p t s = Normal s')
     = (\<not> (m < length (currentMeasures s) \<and> length (currentMeasures s ! m) < 5))"
proof -
  define s0 where "s0 = snd (getAudioCtx s)"
  define acc where "acc = (accentDownbeat (currentPlayOpts s0) \<noteq> Some False \<and> p div 4 = 0)"
  define s1 where "s1 = (if p mod 4 = 0 \<and> enabled (currentPlayOpts s0) = Some True
     then metronomeClick (m, p) t acc
            (case metroPitch (currentPlayOpts s0) of Some p \<Rightarrow> p | None \<Rightarrow> 1.0) s0
     else s0)"
  have eq: "scheduleNote m p t s =
      (if m \<ge> length (currentMeasures s1) then Normal s1
       else for_strings [0, 1, 2, 3, 4] (schedule_string m p t (currentMeasures s1 ! m)) s1)"
    unfolding scheduleNote_def s1_def s0_def acc_def Let_def ..
  have ms: "currentMeasures s1 = currentMeasures s"
    unfolding s1_def s0_def by (simp add: metronomeClick_def Let_def)
  show ?thesis
  proof (cases "m \<ge> length (currentMeasures s)")
    case True
    then show ?thesis unfolding eq ms by simp
  next
    case False
    note inside = this
    show ?thesis
    proof (cases "length (currentMeasures s ! m) < 5")
      case False
      then have "\<forall>str\<in>set [0, 1, 2, 3, 4]. str < length (currentMeasures s ! m)" by auto
      then have "\<exists>s'. for_strings [0, 1, 2, 3, 4] (schedule_string m p t (currentMeasures s ! m)) s1 = Normal s'"
        by (rule for_strings_normal)
      then show ?thesis unfolding eq ms using inside False by simp
    next
      case True
      then have "\<exists>str\<in>set [0, 1, 2, 3, 4]. \<not> str < length (currentMeasures s ! m)" by auto
      then have "\<exists>e s'. for_strings [0, 1, 2, 3, 4] (schedule_string m p t (currentMeasures s ! m)) s1 = Throw e s'"
        by (rule for_strings_throws)
      then show ?thesis unfolding eq ms using inside True by auto
    qed
  qed
qed

lemma click_inv_frame:
  assumes "click_inv old opts ms s"
    and "currentPlayOpts s' = currentPlayOpts s" "currentMeasures s' = currentMeasures s"
    and "currentPos s' = currentPos s"
    and "currentMeasure s' = currentMeasure s" "calls s' = calls s"
  shows "click_inv old opts ms s'"
  using assms unfolding click_inv_def by simp

lemma click_inv_getAudioCtx:
  "click_inv old opts ms s \<Longrightarrow> click_inv old opts ms (snd (getAudioCtx s))"
  by (erule click_inv_frame) simp_all

lemma filter_at_other:
  assumes "\<forall>c\<in>set added. call_pos c = q" and "q \<noteq> mp"
  shows "filter (\<lambda>c. is_click c \<and> call_pos c = mp) added = []"
  using assms by (auto simp: filter_empty_conv)

lemma filter_at_same:
  assumes "\<forall>c\<in>set added. call_pos c = q"
  shows "filter (\<lambda>c. is_click c \<and> call_pos c = q) added = filter is_click added"
  using assms by (intro filter_cong) auto

text \<open>
  What one call of \<^verbatim>\<open>scheduleNote\<close> at the pointer adds to the calls logged since the
  start of the session.
\<close>

lemma click_inv_added:
  assumes inv: "click_inv old opts ms s"
  obtains new added where
    "calls s = old @ new"
    "state_of (scheduleNote (currentMeasure s) (currentPos s) t s)
       = (snd (getAudioCtx s))\<lparr>calls := old @ (new @ added)\<rparr>"
    "\<forall>c\<in>set added. call_pos c = (currentMeasure s, currentPos s)"
    "length (filter is_click added)
       = (if currentPos s mod 4 = 0 \<and> enabled opts = Some True then 1 else 0)"
    "\<forall>c\<in>set (new @ added). snd (call_pos c) < 16
        \<and> grid_index (call_pos c) \<le> grid_index (currentMeasure s, currentPos s)"
    "\<forall>c\<in>set (new @ added). is_click c \<longrightarrow>
        snd (call_pos c) mod 4 = 0
        \<and> accent (snd c) = (accentDownbeat opts \<noteq> Some False \<and> snd (call_pos c) = 0)"
    "\<forall>m p. p < 16 \<and> grid_index (m, p) < grid_index (currentMeasure s, currentPos s)
        \<longrightarrow> length (filter (\<lambda>c. is_click c \<and> call_pos c = (m, p)) (new @ added))
              = (if p mod 4 = 0 then 1 else 0)"
    "(\<exists>c\<in>set new. call_pos c = (currentMeasure s, currentPos s))
        \<longrightarrow> currentMeasure s < length ms \<and> length (ms ! currentMeasure s) < 5"
proof -
  from inv obtain new where new: "calls s = old @ new"
    "\<forall>c\<in>set new. snd (call_pos c) < 16
        \<and> grid_index (call_pos c) \<le> grid_index (currentMeasure s, currentPos s)"
    "\<forall>c\<in>set new. is_click c \<longrightarrow>
        snd (call_pos c) mod 4 = 0
        \<and> accent (snd c) = (accentDownbeat opts \<noteq> Some False \<and> snd (call_pos c) = 0)"
    "\<forall>m p. p < 16 \<and> grid_index (m, p) < grid_index (currentMeasure s, currentPos s)
        \<longrightarrow> length (filter (\<lambda>c. is_click c \<and> call_pos c = (m, p)) new)
              = (if p mod 4 = 0 then 1 else 0)"
    "(\<exists>c\<in>set new. call_pos c = (currentMeasure s, currentPos s))
        \<longrightarrow> currentMeasure s < length ms \<and> length (ms ! currentMeasure s) < 5"
    and rest: "currentPlayOpts s = opts" "currentMeasures s = ms" "currentPos s < 16"
    unfolding click_inv_def by blast
  define clk where "clk = Click t (accentDownbeat opts \<noteq> Some False \<and> currentPos s = 0)
                   ((if accentDownbeat opts \<noteq> Some False \<and> currentPos s = 0
                     then 500 else 800)
                    * (case metroPitch opts of Some x \<Rightarrow> x | None \<Rightarrow> 1))
                   (if accentDownbeat opts \<noteq> Some False \<and> currentPos s = 0
                    then 0.8 else 0.5)"
  obtain added where added:
    "state_of (scheduleNote (currentMeasure s) (currentPos s) t s)
       = (snd (getAudioCtx s))\<lparr>calls := calls s @ added\<rparr>"
    "\<forall>c\<in>set added. call_pos c = (currentMeasure s, currentPos s)"
    "filter is_click added =
         (if currentPos s mod 4 = 0 \<and> enabled opts = Some True
          then [((currentMeasure s, currentPos s), clk)] else [])"
    using scheduleNote_added [of "currentMeasure s" "currentPos s" t s]
    unfolding rest(1) clk_def by blast
  have st: "state_of (scheduleNote (currentMeasure s) (currentPos s) t s)
       = (snd (getAudioCtx s))\<lparr>calls := old @ (new @ added)\<rparr>"
    unfolding added(1) new(1) by simp
  have len: "length (filter is_click added)
       = (if currentPos s mod 4 = 0 \<and> enabled opts = Some True then 1 else 0)"
    unfolding added(3) by simp
  have bounds: "\<forall>c\<in>set (new @ added). snd (call_pos c) < 16
        \<and> grid_index (call_pos c) \<le> grid_index (currentMeasure s, currentPos s)"
    using new(2) added(2) rest(3) by auto
  have clicks_added: "\<forall>c\<in>set added. is_click c \<longrightarrow>
        snd (call_pos c) mod 4 = 0
        \<and> accent (snd c) = (accentDownbeat opts \<noteq> Some False \<and> snd (call_pos c) = 0)"
  proof (intro ballI impI)
    fix c
    assume c: "c \<in> set added" "is_click c"
    then have "c \<in> set (filter is_click added)" by simp
    then have m4: "currentPos s mod 4 = 0" and eq: "c = ((currentMeasure s, currentPos s), clk)"
      unfolding added(3) by (simp_all split: if_splits)
    show "snd (call_pos c) mod 4 = 0
        \<and> accent (snd c) = (accentDownbeat opts \<noteq> Some False \<and> snd (call_pos c) = 0)"
      unfolding eq clk_def using m4 by (simp add: call_pos_def)
  qed
  have clicks: "\<forall>c\<in>set (new @ added). is_click c \<longrightarrow>
        snd (call_pos c) mod 4 = 0
        \<and> accent (snd c) = (accentDownbeat opts \<noteq> Some False \<and> snd (call_pos c) = 0)"
    using new(3) clicks_added by auto
  have counts: "\<forall>m p. p < 16 \<and> grid_index (m, p) < grid_index (currentMeasure s, currentPos s)
        \<longrightarrow> length (filter (\<lambda>c. is_click c \<and> call_pos c = (m, p)) (new @ added))
              = (if p mod 4 = 0 then 1 else 0)"
  proof (intro allI impI)
    fix m p
    assume h: "p < 16 \<and> grid_index (m, p) < grid_index (currentMeasure s, currentPos s)"
    then have "(currentMeasure s, currentPos s) \<noteq> (m, p)" by auto
    with added(2) have "filter (\<lambda>c. is_click c \<and> call_pos c = (m, p)) added = []"
      by (rule filter_at_other)
    moreover have "length (filter (\<lambda>c. is_click c \<and> call_pos c = (m, p)) new)
              = (if p mod 4 = 0 then 1 else 0)"
      using h by (rule new(4) [rule_format])
    ultimately show "length (filter (\<lambda>c. is_click c \<and> call_pos c = (m, p)) (new @ added))
              = (if p mod 4 = 0 then 1 else 0)"
      by simp
  qed
  show thesis
    using new(1) st added(2) len bounds clicks counts new(5) by (rule that)
qed

text \<open>A call of \<^verbatim>\<open>scheduleNote\<close> at the pointer that throws: the pointer stays.\<close>

lemma click_inv_throw:
  assumes inv: "click_inv old opts ms s"
    and n: "scheduleNote (currentMeasure s) (currentPos s) t s = Throw e s'"
  shows "click_inv old opts ms s'"
proof -
  have rest: "currentPlayOpts s = opts" "currentMeasures s = ms" "currentPos s < 16"
    using inv unfolding click_inv_def by simp_all
  have "\<not> (\<exists>s''. scheduleNote (currentMeasure s) (currentPos s) t s = Normal s'')"
    using n by simp
  then have thr: "currentMeasure s < length ms \<and> length (ms ! currentMeasure s) < 5"
    unfolding scheduleNote_completes rest(2) by simp
  have s': "s' = state_of (scheduleNote (currentMeasure s) (currentPos s) t s)"
    using n by simp
  from inv obtain new added where a:
    "state_of (scheduleNote (currentMeasure s) (currentPos s) t s)
       = (snd (getAudioCtx s))\<lparr>calls := old @ (new @ added)\<rparr>"
    "\<forall>c\<in>set (new @ added). snd (call_pos c) < 16
        \<and> grid_index (call_pos c) \<le> grid_index (currentMeasure s, currentPos s)"
    "\<forall>c\<in>set (new @ added). is_click c \<longrightarrow>
        snd (call_pos c) mod 4 = 0
        \<and> accent (snd c) = (accentDownbeat opts \<noteq> Some False \<and> snd (call_pos c) = 0)"
    "\<forall>m p. p < 16 \<and> grid_index (m, p) < grid_index (currentMeasure s, currentPos s)
        \<longrightarrow> length (filter (\<lambda>c. is_click c \<and> call_pos c = (m, p)) (new @ added))
              = (if p mod 4 = 0 then 1 else 0)"
    by (rule click_inv_added [where t = t])
  show ?thesis
    unfolding click_inv_def s' a(1)
    using rest thr a(2,3,4) by (intro conjI exI [of _ "new @ added"]) simp_all
qed

text \<open>A call that completes, followed by \<^verbatim>\<open>nextNote\<close>: the position is passed.\<close>

lemma click_inv_pass:
  assumes inv: "click_inv old opts ms s" and on: "enabled opts = Some True"
    and n: "scheduleNote (currentMeasure s) (currentPos s) t s = Normal s'"
  shows "click_inv old opts ms (nextNote s')"
proof -
  have rest: "currentPlayOpts s = opts" "currentMeasures s = ms" "currentPos s < 16"
    using inv unfolding click_inv_def by simp_all
  have "\<exists>s''. scheduleNote (currentMeasure s) (currentPos s) t s = Normal s''"
    using n by simp
  then have nothr: "\<not> (currentMeasure s < length ms \<and> length (ms ! currentMeasure s) < 5)"
    unfolding scheduleNote_completes rest(2) .
  have s': "s' = state_of (scheduleNote (currentMeasure s) (currentPos s) t s)"
    using n by simp
  from inv obtain new added where a:
    "state_of (scheduleNote (currentMeasure s) (currentPos s) t s)
       = (snd (getAudioCtx s))\<lparr>calls := old @ (new @ added)\<rparr>"
    "\<forall>c\<in>set added. call_pos c = (currentMeasure s, currentPos s)"
    "length (filter is_click added)
       = (if currentPos s mod 4 = 0 \<and> enabled opts = Some True then 1 else 0)"
    "\<forall>c\<in>set (new @ added). snd (call_pos c) < 16
        \<and> grid_index (call_pos c) \<le> grid_index (currentMeasure s, currentPos s)"
    "\<forall>c\<in>set (new @ added). is_click c \<longrightarrow>
        snd (call_pos c) mod 4 = 0
        \<and> accent (snd c) = (accentDownbeat opts \<noteq> Some False \<and> snd (call_pos c) = 0)"
    "\<forall>m p. p < 16 \<and> grid_index (m, p) < grid_index (currentMeasure s, currentPos s)
        \<longrightarrow> length (filter (\<lambda>c. is_click c \<and> call_pos c = (m, p)) (new @ added))
              = (if p mod 4 = 0 then 1 else 0)"
    "(\<exists>c\<in>set new. call_pos c = (currentMeasure s, currentPos s))
        \<longrightarrow> currentMeasure s < length ms \<and> length (ms ! currentMeasure s) < 5"
    by (rule click_inv_added [where t = t])
  have fresh: "\<forall>c\<in>set new. call_pos c \<noteq> (currentMeasure s, currentPos s)"
    using a(7) nothr by blast
  have ptr: "currentMeasure s' = currentMeasure s" "currentPos s' = currentPos s"
    "currentPlayOpts s' = opts" "currentMeasures s' = ms" "calls s' = old @ (new @ added)"
    unfolding s' a(1) using rest by simp_all
  have idx: "grid_index (currentMeasure (nextNote s'), currentPos (nextNote s'))
               = grid_index (currentMeasure s, currentPos s) + 1"
    using rest(3) ptr(1,2) by (simp add: nextNote_def grid_index_def Let_def)
  have pos: "currentPos (nextNote s') < 16"
    using rest(3) ptr(2) by (simp add: nextNote_def Let_def)
  have c: "calls (nextNote s') = old @ (new @ added)" "currentPlayOpts (nextNote s') = opts"
    "currentMeasures (nextNote s') = ms"
    using ptr by (simp_all add: nextNote_def Let_def)
  have here: "length (filter (\<lambda>c. is_click c \<and> call_pos c = (currentMeasure s, currentPos s))
                 (new @ added))
              = (if currentPos s mod 4 = 0 then 1 else 0)"
  proof -
    have "filter (\<lambda>c. is_click c \<and> call_pos c = (currentMeasure s, currentPos s)) new = []"
      using fresh by (auto simp: filter_empty_conv)
    moreover have "filter (\<lambda>c. is_click c \<and> call_pos c = (currentMeasure s, currentPos s)) added
        = filter is_click added"
      using a(2) by (rule filter_at_same)
    ultimately show ?thesis using a(3) on by simp
  qed
  have bounds: "\<forall>c\<in>set (new @ added). snd (call_pos c) < 16
        \<and> grid_index (call_pos c) \<le> grid_index (currentMeasure s, currentPos s) + 1"
  proof
    fix c
    assume "c \<in> set (new @ added)"
    with a(4) have "snd (call_pos c) < 16
        \<and> grid_index (call_pos c) \<le> grid_index (currentMeasure s, currentPos s)" ..
    then show "snd (call_pos c) < 16
        \<and> grid_index (call_pos c) \<le> grid_index (currentMeasure s, currentPos s) + 1"
      by simp
  qed
  have counts: "\<forall>m p. p < 16 \<and> grid_index (m, p) < grid_index (currentMeasure s, currentPos s) + 1
        \<longrightarrow> length (filter (\<lambda>c. is_click c \<and> call_pos c = (m, p)) (new @ added))
              = (if p mod 4 = 0 then 1 else 0)"
  proof (intro allI impI)
    fix m p
    assume h: "p < 16 \<and> grid_index (m, p) < grid_index (currentMeasure s, currentPos s) + 1"
    show "length (filter (\<lambda>c. is_click c \<and> call_pos c = (m, p)) (new @ added))
              = (if p mod 4 = 0 then 1 else 0)"
    proof (cases "grid_index (m, p) < grid_index (currentMeasure s, currentPos s)")
      case True
      with h have "p < 16 \<and> grid_index (m, p) < grid_index (currentMeasure s, currentPos s)"
        by simp
      then show ?thesis by (rule a(6) [rule_format])
    next
      case False
      with h have "grid_index (m, p) = grid_index (currentMeasure s, currentPos s)" by simp
      then have "(m, p) = (currentMeasure s, currentPos s)"
        using h rest(3) by (intro grid_index_inj) simp_all
      then show ?thesis using here by simp
    qed
  qed
  have none: "\<not> (\<exists>c\<in>set (new @ added).
       call_pos c = (currentMeasure (nextNote s'), currentPos (nextNote s')))"
  proof
    assume "\<exists>c\<in>set (new @ added).
       call_pos c = (currentMeasure (nextNote s'), currentPos (nextNote s'))"
    then obtain c where c: "c \<in> set (new @ added)"
      "call_pos c = (currentMeasure (nextNote s'), currentPos (nextNote s'))" ..
    from a(4) c(1) have "grid_index (call_pos c) \<le> grid_index (currentMeasure s, currentPos s)"
      by blast
    then show False unfolding c(2) idx by simp
  qed
  show ?thesis
    unfolding click_inv_def
  proof (intro conjI exI [of _ "new @ added"])
    show "currentPlayOpts (nextNote s') = opts" by (rule c(2))
    show "currentMeasures (nextNote s') = ms" by (rule c(3))
    show "currentPos (nextNote s') < 16" by (rule pos)
    show "calls (nextNote s') = old @ new @ added" using c(1) by simp
    show "\<forall>c\<in>set (new @ added). snd (call_pos c) < 16
        \<and> grid_index (call_pos c) \<le> grid_index (currentMeasure (nextNote s'), currentPos (nextNote s'))"
      unfolding idx by (rule bounds)
    show "\<forall>c\<in>set (new @ added). is_click c \<longrightarrow>
        snd (call_pos c) mod 4 = 0
        \<and> accent (snd c) = (accentDownbeat opts \<noteq> Some False \<and> snd (call_pos c) = 0)"
      by (rule a(5))
    show "\<forall>m p. p < 16 \<and> grid_index (m, p) < grid_index (currentMeasure (nextNote s'), currentPos (nextNote s'))
        \<longrightarrow> length (filter (\<lambda>c. is_click c \<and> call_pos c = (m, p)) (new @ added))
              = (if p mod 4 = 0 then 1 else 0)"
      unfolding idx by (rule counts)
    show "(\<exists>c\<in>set (new @ added). call_pos c = (currentMeasure (nextNote s'), currentPos (nextNote s')))
        \<longrightarrow> currentMeasure (nextNote s') < length ms \<and> length (ms ! currentMeasure (nextNote s')) < 5"
      using none by blast
  qed
qed

lemma click_inv_scheduler:
  assumes "scheduler s = Some r" and on: "enabled opts = Some True"
  shows "click_inv old opts ms s \<Longrightarrow> click_inv old opts ms (state_of r)"
  using assms(1)
proof (induction rule: scheduler_induct)
  case (pass sched s0 r)
  define s where "s = snd (getAudioCtx s0)"
  have inv_s: "click_inv old opts ms s"
    unfolding s_def using pass.prems by (rule click_inv_getAudioCtx)
  note body = pass.hyps [unfolded Let_def, folded s_def]
  show ?case
  proof (cases "nextNoteTime s < currentTime (fst (getAudioCtx s0)) + SCHEDULE_AHEAD_TIME")
    case False
    with body have "r = Normal ((snd (setTimeout SchedulerWake LOOKAHEAD s))\<lparr>timerID := Some (fst (setTimeout SchedulerWake LOOKAHEAD s))\<rparr>)"
      by simp
    then show ?thesis using inv_s
      by (auto elim!: click_inv_frame simp: setTimeout_def)
  next
    case True
    note within = this
    show ?thesis
    proof (cases "length (currentMeasures s) \<le> currentMeasure s")
      case True
      with within body have "r = Normal (snd (setTimeout DrainEnd ((nextNoteTime s - currentTime (fst (getAudioCtx s0))) * 1000 + 3500) s))"
        by simp
      then show ?thesis using inv_s
        by (auto elim!: click_inv_frame simp: setTimeout_def)
    next
      case False
      show ?thesis
      proof (cases "scheduleNote (currentMeasure s) (currentPos s) (nextNoteTime s) s")
        case (Throw e s')
        with within False body have "r = Throw e s'" by simp
        moreover have "click_inv old opts ms s'"
          using inv_s Throw by (rule click_inv_throw)
        ultimately show ?thesis by simp
      next
        case (Normal s')
        with within False body have "sched (nextNote s') = Some r" by simp
        moreover have "click_inv old opts ms (nextNote s')"
          using inv_s on Normal by (rule click_inv_pass)
        ultimately show ?thesis by (rule pass.IH)
      qed
    qed
  qed
qed

lemma click_inv_step:
  assumes "quiet e" and "step e s = Some s'" and on: "enabled opts = Some True"
    and inv: "click_inv old opts ms s"
  shows "click_inv old opts ms s'"
proof (cases e)
  case (Play ms b cb po)
  with assms(1) show ?thesis by simp
next
  case Stop
  with assms(1) show ?thesis by simp
next
  case (UpdateSettings bVol mVol mPitch mEnabled mAccent)
  with assms(2) have "s' = updateAudioSettings bVol mVol mPitch mEnabled mAccent s" by simp
  then show ?thesis using inv
    by (auto elim!: click_inv_frame simp: updateAudioSettings_def Let_def split: option.splits)
next
  case (Tick dt adt)
  with assms(2) show ?thesis using inv
    by (auto elim!: click_inv_frame split: if_splits)
next
  case (Fire i)
  with assms(2) have f: "fire i s = Some s'" by simp
  then obtain t where t: "find (\<lambda>t. tid t = i) (pending s) = Some t"
    by (auto simp: fire_def split: option.splits)
  define s1 where "s1 = s\<lparr>pending := filter (\<lambda>t. tid t \<noteq> i) (pending s)\<rparr>"
  have inv1: "click_inv old opts ms s1"
    using inv unfolding s1_def by (rule click_inv_frame) simp_all
  show ?thesis
  proof (cases "kind t")
    case SchedulerWake
    with f t obtain r where "scheduler s1 = Some r" "s' = state_of r"
      by (auto simp: fire_def s1_def Let_def split: if_splits)
    then show ?thesis using inv1 on by (simp add: click_inv_scheduler)
  next
    case DrainEnd
    with f t have "s' = drain_callback s1"
      by (auto simp: fire_def s1_def Let_def split: if_splits)
    then show ?thesis using inv1
      by (auto elim!: click_inv_frame simp: drain_callback_def Let_def split: option.splits)
  qed
qed

lemma click_inv_run:
  assumes "\<forall>e\<in>set evs. quiet e" and "run evs s = Some s'" and "enabled opts = Some True"
    and "click_inv old opts ms s"
  shows "click_inv old opts ms s'"
  using assms
proof (induction evs arbitrary: s)
  case Nil
  then show ?case by simp
next
  case (Cons e evs)
  from Cons.prems(2) obtain s1 where s1: "step e s = Some s1" "run evs s1 = Some s'"
    by (auto split: option.splits)
  have "click_inv old opts ms s1"
    using Cons.prems(1) s1(1) Cons.prems(3,4) by (auto intro: click_inv_step)
  then show ?case using Cons.IH Cons.prems(1,3) s1(2) by auto
qed

lemma click_inv_play:
  assumes "step (Play ms bpm cb opts) s = Some s1"
  shows "click_inv (calls s) opts ms s1"
proof -
  obtain c where "playSong ms bpm cb opts s =
     Some (Normal ((before_play s)
       \<lparr>audioCtx := Some c, isPlaying := True, currentBpm := bpm, currentMeasures := ms,
        currentPlayOpts := opts, masterOnStop := cb, currentMeasure := 0, currentPos := 0,
        nextNoteTime := currentTime c + 0.1,
        pending := pending (before_play s) @
           [\<lparr>tid = nextId s, due = wall s + 0.025, kind = SchedulerWake\<rparr>],
        nextId := nextId s + 1, timerID := Some (nextId s)\<rparr>))"
    using playSong_result by blast
  with assms have "s1 = (before_play s)
       \<lparr>audioCtx := Some c, isPlaying := True, currentBpm := bpm, currentMeasures := ms,
        currentPlayOpts := opts, masterOnStop := cb, currentMeasure := 0, currentPos := 0,
        nextNoteTime := currentTime c + 0.1,
        pending := pending (before_play s) @
           [\<lparr>tid = nextId s, due = wall s + 0.025, kind = SchedulerWake\<rparr>],
        nextId := nextId s + 1, timerID := Some (nextId s)\<rparr>"
    by simp
  then show ?thesis
    by (simp add: click_inv_def grid_index_def before_play_def stopSong_frame)
qed

text \<open>
  Claim C5, as amended. Take a session that \<^verbatim>\<open>playSong\<close> started with the metronome
  enabled in its \<^verbatim>\<open>playOpts\<close> (\<^verbatim>\<open>enabled === true\<close>), followed by time passing,
  timers firing and \<^verbatim>\<open>updateAudioSettings\<close> being called, with no further
  \<^verbatim>\<open>playSong\<close> or \<^verbatim>\<open>stopSong\<close>. Every click scheduled since \<^verbatim>\<open>playSong\<close>
  was issued for a position whose index is a multiple of 4, and it is accented exactly
  when the accent-downbeat flag of those \<^verbatim>\<open>playOpts\<close> is set
  (\<^verbatim>\<open>accentDownbeat !== false\<close>) and the position is 0. And for every grid position
  the scheduler has passed, that is every position of every measure before the pointer,
  one click was scheduled if its index is a multiple of 4 and none otherwise.
\<close>

theorem session_metronome_clicks:
  assumes "step (Play allMeasures bpm onStop opts) s = Some s1"
    and "\<forall>e\<in>set evs. quiet e" and "run evs s1 = Some s2"
    and "enabled opts = Some True"
  shows "(\<forall>c\<in>set (calls_since (length (calls s)) s2). is_click c \<longrightarrow>
             snd (call_pos c) mod 4 = 0
             \<and> accent (snd c) = (accentDownbeat opts \<noteq> Some False \<and> snd (call_pos c) = 0))
       \<and> (\<forall>m p. p < 16 \<and> grid_index (m, p) < grid_index (currentMeasure s2, currentPos s2)
             \<longrightarrow> length (filter (\<lambda>c. is_click c \<and> call_pos c = (m, p))
                           (calls_since (length (calls s)) s2))
                   = (if p mod 4 = 0 then 1 else 0))"
proof -
  have "click_inv (calls s) opts allMeasures s1"
    using assms(1) by (rule click_inv_play)
  with assms(2,3,4) have inv: "click_inv (calls s) opts allMeasures s2"
    by (rule click_inv_run)
  then obtain new where new: "calls s2 = calls s @ new"
    "\<forall>c\<in>set new. is_click c \<longrightarrow>
        snd (call_pos c) mod 4 = 0
        \<and> accent (snd c) = (accentDownbeat opts \<noteq> Some False \<and> snd (call_pos c) = 0)"
    "\<forall>m p. p < 16 \<and> grid_index (m, p) < grid_index (currentMeasure s2, currentPos s2)
        \<longrightarrow> length (filter (\<lambda>c. is_click c \<and> call_pos c = (m, p)) new)
              = (if p mod 4 = 0 then 1 else 0)"
    unfolding click_inv_def by blast
  have cs: "calls_since (length (calls s)) s2 = new"
    unfolding calls_since_def new(1) by simp
  show ?thesis unfolding cs using new(2,3) by (rule conjI)
qed

text \<open>
  A session of two measures at 120 beats per minute whose wake-up comes 2.1 s after the
  start: one pass schedules the 16 positions of the first measure and position 0 of the
  second.
\<close>

lemma metronome_session_eval:
  "\<exists>s1. step (Play [measure_G, measure_G] 120 None (no_opts\<lparr>enabled := Some True\<rparr>)) initial = Some s1
      \<and> (\<exists>s2. run [Tick 2.1 2.1, Fire 0] s1 = Some s2
           \<and> currentMeasure s2 = 1 \<and> currentPos s2 = 1
           \<and> filter is_click (calls_since (length (calls initial)) s2)
              = [((0, 0), Click (1 / 10) True 500 (4 / 5)),
                 ((0, 4), Click (6 / 10) False 800 (1 / 2)),
                 ((0, 8), Click (11 / 10) False 800 (1 / 2)),
                 ((0, 12), Click (16 / 10) False 800 (1 / 2)),
                 ((1, 0), Click (21 / 10) True 500 (4 / 5))])"
  by (simp add: eng_defs scheduler.simps calls_since_def)

theorem session_metronome_clicks_witness:
  "\<exists>s1 s2.
      step (Play [measure_G, measure_G] 120 None (no_opts\<lparr>enabled := Some True\<rparr>)) initial = Some s1
    \<and> run [Tick 2.1 2.1, Fire 0] s1 = Some s2
    \<and> enabled (no_opts\<lparr>enabled := Some True\<rparr>) = Some True
    \<and> currentMeasure s2 = 1 \<and> currentPos s2 = 1
    \<and> filter is_click (calls_since (length (calls initial)) s2)
         = [((0, 0), Click (1 / 10) True 500 (4 / 5)),
            ((0, 4), Click (6 / 10) False 800 (1 / 2)),
            ((0, 8), Click (11 / 10) False 800 (1 / 2)),
            ((0, 12), Click (16 / 10) False 800 (1 / 2)),
            ((1, 0), Click (21 / 10) True 500 (4 / 5))]
    \<and> (\<forall>c\<in>set (calls_since (length (calls initial)) s2). is_click c \<longrightarrow>
             snd (call_pos c) mod 4 = 0
             \<and> accent (snd c)
                 = (accentDownbeat (no_opts\<lparr>enabled := Some True\<rparr>) \<noteq> Some False
                    \<and> snd (call_pos c) = 0))
    \<and> (\<forall>m p. p < 16 \<and> grid_index (m, p) < grid_index (currentMeasure s2, currentPos s2)
             \<longrightarrow> length (filter (\<lambda>c. is_click c \<and> call_pos c = (m, p))
                           (calls_since (length (calls initial)) s2))
                   = (if p mod 4 = 0 then 1 else 0))"
proof -
  obtain s1 s2 where r:
    "step (Play [measure_G, measure_G] 120 None (no_opts\<lparr>enabled := Some True\<rparr>)) initial = Some s1"
    "run [Tick 2.1 2.1, Fire 0] s1 = Some s2"
    and p: "currentMeasure s2 = 1" "currentPos s2 = 1"
      "filter is_click (calls_since (length (calls initial)) s2)
         = [((0, 0), Click (1 / 10) True 500 (4 / 5)),
            ((0, 4), Click (6 / 10) False 800 (1 / 2)),
            ((0, 8), Click (11 / 10) False 800 (1 / 2)),
            ((0, 12), Click (16 / 10) False 800 (1 / 2)),
            ((1, 0), Click (21 / 10) True 500 (4 / 5))]"
    using metronome_session_eval by blast
  have q: "\<forall>e\<in>set [Tick 2.1 2.1, Fire 0]. quiet e" by simp
  have on: "enabled (no_opts\<lparr>enabled := Some True\<rparr>) = Some True" by simp
  note placed = session_metronome_clicks [OF r(1) q r(2) on]
  show ?thesis
    by (intro exI [of _ s1] exI [of _ s2] conjI)
       (rule r p on placed [THEN conjunct1] placed [THEN conjunct2])+
qed

text \<open>
  The claim read with the flags as they stand while the session runs fails. In
  \<open>enabled_later_session\<close> the metronome is switched on through
  \<^verbatim>\<open>updateAudioSettings\<close> after \<^verbatim>\<open>playSong\<close>: the metronome bus is at gain 1,
  positions 0 to 4 are scheduled (the strum on 0 and the drone on 4), and no click is.
  In \<open>accent_off_later_session\<close> the accent flag is switched off the same way, and the
  click on position 0 is accented all the same.
\<close>

lemma enabled_later_eval:
  "map_option (\<lambda>s. (map call_pos (calls s), filter is_click (calls s),
                     map_option metroMasterGain (audioCtx s), currentMeasure s, currentPos s))
     (run enabled_later_session initial)
   = Some ([(0, 0), (0, 0), (0, 0), (0, 0), (0, 4)], [], Some 1, 0, 5)"
  by (simp add: enabled_later_session_def eng_defs scheduler.simps call_pos_def)

lemma accent_off_later_eval:
  "map_option (\<lambda>s. (filter is_click (calls s), currentMeasure s, currentPos s))
     (run accent_off_later_session initial)
   = Some ([((0, 0), Click (1 / 10) True 500 (4 / 5)), ((0, 4), Click (6 / 10) False 800 (1 / 2))],
           0, 5)"
  by (simp add: accent_off_later_session_def eng_defs scheduler.simps call_pos_def)

theorem metronome_flags_counterexample:
  "map_option (map call_pos \<circ> calls) (run enabled_later_session initial)
     = Some [(0, 0), (0, 0), (0, 0), (0, 0), (0, 4)]
   \<and> map_option (filter is_click \<circ> calls) (run enabled_later_session initial) = Some []
   \<and> map_option (map_option metroMasterGain \<circ> audioCtx) (run enabled_later_session initial)
       = Some (Some 1)
   \<and> map_option (filter is_click \<circ> calls) (run accent_off_later_session initial)
       = Some [((0, 0), Click (1 / 10) True 500 (4 / 5)),
               ((0, 4), Click (6 / 10) False 800 (1 / 2))]"
proof -
  have a: "map_option (map call_pos \<circ> calls) (run enabled_later_session initial)
     = Some [(0, 0), (0, 0), (0, 0), (0, 0), (0, 4)]
   \<and> map_option (filter is_click \<circ> calls) (run enabled_later_session initial) = Some []
   \<and> map_option (map_option metroMasterGain \<circ> audioCtx) (run enabled_later_session initial)
       = Some (Some 1)"
    using enabled_later_eval by (cases "run enabled_later_session initial") simp_all
  have b: "map_option (filter is_click \<circ> calls) (run accent_off_later_session initial)
       = Some [((0, 0), Click (1 / 10) True 500 (4 / 5)),
               ((0, 4), Click (6 / 10) False 800 (1 / 2))]"
    using accent_off_later_eval by (cases "run accent_off_later_session initial") simp_all
  from a b show ?thesis by blast
qed

subsection \<open>The positions one pass of the scheduler covers\<close>

text \<open>
  When every measure of the timeline has its five rows, a pass of \<^verbatim>\<open>scheduler\<close>
  that returns does so normally and leaves the pointer at the end of the timeline or at
  the first position whose time lies beyond the look-ahead window: every position before
  it has been handed to \<^verbatim>\<open>scheduleNote\<close>.
\<close>

lemma scheduleNote_frame:
  "audioCtx (state_of (scheduleNote m p t s)) = Some (fst (getAudioCtx s))"
  "currentMeasures (state_of (scheduleNote m p t s)) = currentMeasures s"
proof -
  obtain new where "state_of (scheduleNote m p t s) = (snd (getAudioCtx s))\<lparr>calls := new\<rparr>"
    using scheduleNote_added [of m p t s] by blast
  then show "audioCtx (state_of (scheduleNote m p t s)) = Some (fst (getAudioCtx s))"
    "currentMeasures (state_of (scheduleNote m p t s)) = currentMeasures s"
    by (simp_all add: getAudioCtx_snd)
qed

lemma scheduler_pass:
  assumes "scheduler s = Some r"
  shows "\<forall>g\<in>set (currentMeasures s). 5 \<le> length g \<Longrightarrow>
         \<exists>s'. r = Normal s'
            \<and> (length (currentMeasures s') \<le> currentMeasure s'
               \<or> currentTime (fst (getAudioCtx s)) + SCHEDULE_AHEAD_TIME \<le> nextNoteTime s')"
  using assms
proof (induction rule: scheduler_induct)
  case (pass sched s0 r)
  define s where "s = snd (getAudioCtx s0)"
  define now where "now = currentTime (fst (getAudioCtx s0))"
  note body = pass.hyps [unfolded Let_def, folded s_def now_def]
  have ctx: "fst (getAudioCtx s) = fst (getAudioCtx s0)"
    unfolding s_def by (simp add: getAudioCtx_def Let_def split: option.splits)
  show ?case unfolding now_def [symmetric]
  proof (cases "nextNoteTime s < now + SCHEDULE_AHEAD_TIME")
    case False
    with body have "r = Normal ((snd (setTimeout SchedulerWake LOOKAHEAD s))\<lparr>timerID := Some (fst (setTimeout SchedulerWake LOOKAHEAD s))\<rparr>)"
      by simp
    then show "\<exists>s'. r = Normal s' \<and> (length (currentMeasures s') \<le> currentMeasure s'
               \<or> now + SCHEDULE_AHEAD_TIME \<le> nextNoteTime s')"
      using False by (simp add: setTimeout_def)
  next
    case True
    note within = this
    show "\<exists>s'. r = Normal s' \<and> (length (currentMeasures s') \<le> currentMeasure s'
               \<or> now + SCHEDULE_AHEAD_TIME \<le> nextNoteTime s')"
    proof (cases "length (currentMeasures s) \<le> currentMeasure s")
      case True
      with within body have "r = Normal (snd (setTimeout DrainEnd ((nextNoteTime s - now) * 1000 + 3500) s))"
        by simp
      then show ?thesis using True by (simp add: setTimeout_def)
    next
      case False
      have five: "\<forall>g\<in>set (currentMeasures s). 5 \<le> length g"
        using pass.prems unfolding s_def by simp
      have "currentMeasures s ! currentMeasure s \<in> set (currentMeasures s)"
        using False by (intro nth_mem) simp
      with five have "5 \<le> length (currentMeasures s ! currentMeasure s)" ..
      then have "\<not> (currentMeasure s < length (currentMeasures s)
                   \<and> length (currentMeasures s ! currentMeasure s) < 5)"
        by simp
      then have "\<exists>s'. scheduleNote (currentMeasure s) (currentPos s) (nextNoteTime s) s = Normal s'"
        unfolding scheduleNote_completes .
      then obtain s' where n: "scheduleNote (currentMeasure s) (currentPos s) (nextNoteTime s) s = Normal s'" ..
      with within False body have rec: "sched (nextNote s') = Some r" by simp
      have s': "s' = state_of (scheduleNote (currentMeasure s) (currentPos s) (nextNoteTime s) s)"
        using n by simp
      have f: "audioCtx s' = Some (fst (getAudioCtx s0))" "currentMeasures s' = currentMeasures s"
        unfolding s' by (simp_all add: scheduleNote_frame ctx)
      have f2: "currentMeasures (nextNote s') = currentMeasures s"
        "fst (getAudioCtx (nextNote s')) = fst (getAudioCtx s0)"
        using f by (simp_all add: nextNote_def Let_def getAudioCtx_def)
      have "\<forall>g\<in>set (currentMeasures (nextNote s')). 5 \<le> length g"
        using five f2 by simp
      with rec have "\<exists>s''. r = Normal s''
            \<and> (length (currentMeasures s'') \<le> currentMeasure s''
               \<or> currentTime (fst (getAudioCtx (nextNote s'))) + SCHEDULE_AHEAD_TIME \<le> nextNoteTime s'')"
        by (rule pass.IH)
      then show ?thesis unfolding f2 now_def .
    qed
  qed
qed

section \<open>Stopping\<close>

lemma stopSong_legacy_idem: "stopSong_legacy (stopSong_legacy l) = stopSong_legacy l"
  by (simp add: stopSong_legacy_def)

text \<open>
  Claim C9. \<^verbatim>\<open>stopSong\<close> is idempotent: a second call leaves the state of the first.
  In the state after loading it changes nothing at all, and whenever no session is
  running it leaves the running flag, the tempo, the timeline, the options, the callback,
  the position, the next event time and the logs of sounds and callbacks as they were
  (an audio context that is still open is closed). The earlier engine's
  \<^verbatim>\<open>stopSong\<close> is idempotent too, and when idle it sets nothing but its stop flag.
\<close>

theorem stopSong_idempotent:
  "stopSong (stopSong s) = stopSong s
   \<and> stopSong initial = initial
   \<and> (\<not> isPlaying s \<longrightarrow>
        isPlaying (stopSong s) = isPlaying s
      \<and> currentBpm (stopSong s) = currentBpm s
      \<and> currentMeasures (stopSong s) = currentMeasures s
      \<and> currentPlayOpts (stopSong s) = currentPlayOpts s
      \<and> masterOnStop (stopSong s) = masterOnStop s
      \<and> nextNoteTime (stopSong s) = nextNoteTime s
      \<and> currentMeasure (stopSong s) = currentMeasure s
      \<and> currentPos (stopSong s) = currentPos s
      \<and> calls (stopSong s) = calls s
      \<and> fired (stopSong s) = fired s)
   \<and> stopSong_legacy (stopSong_legacy l) = stopSong_legacy l
   \<and> (l_activeSrcs l = [] \<and> l_timer l = None \<and> \<not> l_isPlaying l \<longrightarrow>
        stopSong_legacy l = l\<lparr>l_stopFlag := True\<rparr>)"
proof -
  have a: "stopSong (stopSong s) = stopSong s"
    by (simp add: stopSong_frame split: option.splits)
  have b: "stopSong initial = initial"
    by (simp add: stopSong_frame initial_def)
  have c: "stopSong_legacy l = l\<lparr>l_stopFlag := True\<rparr>"
    if "l_activeSrcs l = [] \<and> l_timer l = None \<and> \<not> l_isPlaying l"
    using that by (simp add: stopSong_legacy_def)
  show ?thesis using a b c stopSong_legacy_idem
    by (simp add: stopSong_frame)
qed

theorem stopSong_idempotent_witness:
  "\<not> isPlaying initial
   \<and> stopSong (stopSong initial) = stopSong initial
   \<and> calls (stopSong initial) = calls initial
   \<and> currentPos (stopSong initial) = currentPos initial
   \<and> l_activeSrcs \<lparr>l_activeSrcs = [], l_timer = None, l_isPlaying = False, l_stopFlag = False,
                     l_pending = [], l_halted = {}\<rparr> = []
   \<and> stopSong_legacy \<lparr>l_activeSrcs = [], l_timer = None, l_isPlaying = False, l_stopFlag = False,
                     l_pending = [], l_halted = {}\<rparr>
      = \<lparr>l_activeSrcs = [], l_timer = None, l_isPlaying = False, l_stopFlag = True,
                     l_pending = [], l_halted = {}\<rparr>"
  using stopSong_idempotent [of initial "\<lparr>l_activeSrcs = [], l_timer = None, l_isPlaying = False,
     l_stopFlag = False, l_pending = [], l_halted = {}\<rparr>"]
  by (simp add: initial_def)

section \<open>An empty timeline\<close>

lemma find_fresh:
  "\<forall>t\<in>set xs. tid t \<noteq> i \<Longrightarrow>
     find (\<lambda>t. tid t = i) (xs @ [x]) = (if tid x = i then Some x else None)"
  by (induction xs) auto

lemma filter_fresh:
  "\<forall>t\<in>set xs. tid t \<noteq> i \<Longrightarrow>
     filter (\<lambda>t. tid t \<noteq> i) (xs @ [x]) = xs @ (if tid x \<noteq> i then [x] else [])"
  by (induction xs) auto

lemma pending_before_play: "set (pending (before_play s)) \<subseteq> set (pending s)"
  by (auto simp: before_play_def stopSong_frame split: option.splits)

lemma scheduler_end:
  assumes "audioCtx s = Some c" and "nextNoteTime s < currentTime c + SCHEDULE_AHEAD_TIME"
    and "length (currentMeasures s) \<le> currentMeasure s"
  shows "scheduler s = Some (Normal (snd (setTimeout DrainEnd
            ((nextNoteTime s - currentTime c) * 1000 + 3500) s)))"
  using assms by (subst scheduler.simps) (simp add: getAudioCtx_def Let_def)

text \<open>
  Claim C2, as amended. \<^verbatim>\<open>playSong\<close> with an empty timeline is not a no-op. From any
  state whose pending timers have ids below the next id, it starts a session (the running
  flag is set, the timeline is empty) and schedules no sound and no click. When the
  wake-up timer fires after the audio clock has advanced, the end of the timeline is
  detected and the drain timer is armed; when that fires in turn, the completion callback
  is invoked and the running flag is cleared, still with no sound or click scheduled.
\<close>

theorem empty_timeline_session:
  assumes fresh: "\<forall>t\<in>set (pending s). tid t < nextId s"
    and t1: "0 < adt" "adt \<le> dt" "0.025 \<le> dt"
    and t2: "0 \<le> adt2" "adt2 \<le> dt2" "3.6 - adt \<le> dt2"
  shows "\<exists>s1 s2.
      step (Play [] bpm (Some cb) opts) s = Some s1
    \<and> isPlaying s1 \<and> currentMeasures s1 = [] \<and> calls s1 = calls s \<and> fired s1 = fired s
    \<and> run [Tick dt adt, Fire (nextId s), Tick dt2 adt2, Fire (nextId s + 1)] s1 = Some s2
    \<and> calls s2 = calls s \<and> fired s2 = fired s @ [cb] \<and> \<not> isPlaying s2"
proof -
  define b where "b = before_play s"
  have fb: "\<forall>t\<in>set (pending b). tid t \<noteq> nextId s"
    and fb1: "\<forall>t\<in>set (pending b). tid t \<noteq> Suc (nextId s)"
    using fresh pending_before_play [of s] unfolding b_def by fastforce+
  have bf: "calls b = calls s" "fired b = fired s" "wall b = wall s" "nextId b = nextId s"
    unfolding b_def by (simp_all add: before_play_def stopSong_frame)
  obtain c where play: "playSong [] bpm (Some cb) opts s =
     Some (Normal (b
       \<lparr>audioCtx := Some c, isPlaying := True, currentBpm := bpm, currentMeasures := [],
        currentPlayOpts := opts, masterOnStop := Some cb, currentMeasure := 0, currentPos := 0,
        nextNoteTime := currentTime c + 0.1,
        pending := pending b @
           [\<lparr>tid = nextId s, due = wall s + 0.025, kind = SchedulerWake\<rparr>],
        nextId := nextId s + 1, timerID := Some (nextId s)\<rparr>))"
    using playSong_result [of "[]" bpm "Some cb" opts s] unfolding b_def by blast
  define s1 where "s1 = b
       \<lparr>audioCtx := Some c, isPlaying := True, currentBpm := bpm, currentMeasures := [],
        currentPlayOpts := opts, masterOnStop := Some cb, currentMeasure := 0, currentPos := 0,
        nextNoteTime := currentTime c + 0.1,
        pending := pending b @
           [\<lparr>tid = nextId s, due = wall s + 0.025, kind = SchedulerWake\<rparr>],
        nextId := nextId s + 1, timerID := Some (nextId s)\<rparr>"
  have st1: "step (Play [] bpm (Some cb) opts) s = Some s1"
    using play by (simp add: s1_def)
  define s1t where "s1t = s1\<lparr>wall := wall s + dt,
      audioCtx := Some (c\<lparr>currentTime := currentTime c + adt\<rparr>)\<rparr>"
  have tick1: "step (Tick dt adt) s1 = Some s1t"
    using t1 by (simp add: s1t_def s1_def bf)
  define s1f where "s1f = s1t\<lparr>pending := pending b\<rparr>"
  have sch: "scheduler s1f = Some (Normal (snd (setTimeout DrainEnd
            ((nextNoteTime s1f - currentTime (c\<lparr>currentTime := currentTime c + adt\<rparr>)) * 1000 + 3500) s1f)))"
    by (rule scheduler_end) (use t1 in \<open>simp_all add: s1f_def s1t_def s1_def SCHEDULE_AHEAD_TIME_def\<close>)
  define s2a where "s2a = snd (setTimeout DrainEnd
            ((nextNoteTime s1f - currentTime (c\<lparr>currentTime := currentTime c + adt\<rparr>)) * 1000 + 3500) s1f)"
  have fire1: "step (Fire (nextId s)) s1t = Some s2a"
    using t1 fb sch
    by (simp add: fire_def s1t_def s1_def find_fresh filter_fresh s2a_def s1f_def Let_def)
  have pend2: "pending s2a = pending b @
      [\<lparr>tid = Suc (nextId s), due = wall s + dt + max 0 ((0.1 - adt) * 1000 + 3500) / 1000,
        kind = DrainEnd\<rparr>]"
    by (simp add: s2a_def setTimeout_def s1f_def s1t_def s1_def)
  define s2t where "s2t = s2a\<lparr>wall := wall s + dt + dt2,
      audioCtx := Some (c\<lparr>currentTime := currentTime c + adt + adt2\<rparr>)\<rparr>"
  have tick2: "step (Tick dt2 adt2) s2a = Some s2t"
    using t2 by (simp add: s2t_def s2a_def setTimeout_def s1f_def s1t_def s1_def)
  define s2 where "s2 = drain_callback (s2t\<lparr>pending := pending b\<rparr>)"
  have due: "\<not> wall s + dt + dt2 < wall s + dt + max 0 ((0.1 - adt) * 1000 + 3500) / 1000"
    using t2 by (simp add: max_def field_simps)
  have fire2: "step (Fire (nextId s + 1)) s2t = Some s2"
    using fb1 due pend2
    by (simp add: fire_def s2t_def find_fresh filter_fresh s2_def Let_def)
  have run: "run [Tick dt adt, Fire (nextId s), Tick dt2 adt2, Fire (nextId s + 1)] s1 = Some s2"
    using tick1 fire1 tick2 fire2 by simp
  have s1p: "isPlaying s1" "currentMeasures s1 = []" "calls s1 = calls s" "fired s1 = fired s"
    by (simp_all add: s1_def bf)
  have s2p: "calls s2 = calls s" "fired s2 = fired s @ [cb]" "\<not> isPlaying s2"
    by (simp_all add: s2_def drain_callback_def s2t_def s2a_def setTimeout_def s1f_def s1t_def
          s1_def bf Let_def)
  from st1 s1p run s2p show ?thesis by blast
qed

theorem empty_timeline_session_witness:
  "pending initial = []
   \<and> (\<exists>s1 s2. step (Play [] 100 (Some 7) no_opts) initial = Some s1
        \<and> isPlaying s1
        \<and> run [Tick 0.025 0.025, Fire 0, Tick 3.6 3.6, Fire 1] s1 = Some s2
        \<and> calls s2 = [] \<and> fired s2 = [7] \<and> \<not> isPlaying s2)"
proof -
  have f: "\<forall>t\<in>set (pending initial). tid t < nextId initial"
    by (simp add: initial_def)
  have n0: "nextId initial = 0" "calls initial = []" "fired initial = []"
    by (simp_all add: initial_def)
  have "\<exists>s1 s2. step (Play [] 100 (Some 7) no_opts) initial = Some s1
        \<and> isPlaying s1 \<and> currentMeasures s1 = [] \<and> calls s1 = calls initial
        \<and> fired s1 = fired initial
        \<and> run [Tick 0.025 0.025, Fire (nextId initial), Tick 3.6 3.6, Fire (nextId initial + 1)] s1
            = Some s2
        \<and> calls s2 = calls initial \<and> fired s2 = fired initial @ [7] \<and> \<not> isPlaying s2"
    by (rule empty_timeline_session [OF f]) simp_all
  then obtain s1 s2 where "step (Play [] 100 (Some 7) no_opts) initial = Some s1"
    "isPlaying s1" "run [Tick 0.025 0.025, Fire 0, Tick 3.6 3.6, Fire 1] s1 = Some s2"
    "calls s2 = []" "fired s2 = [7]" "\<not> isPlaying s2"
    unfolding n0 by auto
  moreover have "pending initial = []" by (simp add: initial_def)
  ultimately show ?thesis by blast
qed

text \<open>
  From the state after loading: \<^verbatim>\<open>playSong([], 100, cb7)\<close> sets the running flag and
  arms the wake-up timer; 25 ms later the wake-up finds the timeline exhausted and arms
  the drain timer, and 3.6 s after that the callback is invoked.
\<close>

theorem empty_timeline_counterexample:
  "map_option isPlaying (run [Play [] 100 (Some 7) no_opts] initial) = Some True
   \<and> map_option (map kind \<circ> pending) (run [Play [] 100 (Some 7) no_opts] initial)
       = Some [SchedulerWake]
   \<and> map_option fired
       (run [Play [] 100 (Some 7) no_opts, Tick 0.025 0.025, Fire 0, Tick 3.6 3.6, Fire 1] initial)
     = Some [7]"
  by (simp add: eng_defs scheduler.simps)

section \<open>The Karplus-Strong buffer\<close>

lemma ks_loop_length: "length (ks_loop k decay d p) = k"
  by (induction k arbitrary: d p) (simp_all add: Let_def)

lemma mod_shift_neq:
  fixes p n L :: nat
  assumes "p < L" "0 < n" "n < L"
  shows "(p + n) mod L \<noteq> p"
proof (cases "p + n < L")
  case True
  then show ?thesis using assms by simp
next
  case False
  then have "(p + n) mod L = p + n - L" using assms by (simp add: mod_if)
  then show ?thesis using assms False by simp
qed

lemma ks_loop_period:
  assumes "2 \<le> length d" and "p < length d"
  shows "(\<forall>n<k. n < length d \<longrightarrow> ks_loop k decay d p ! n = d ! ((p + n) mod length d))
       \<and> (\<forall>n. n + length d < k \<longrightarrow>
             ks_loop k decay d p ! (n + length d)
               = decay * 0.5 * (ks_loop k decay d p ! n + ks_loop k decay d p ! (n + 1)))"
  using assms
proof (induction k arbitrary: d p)
  case 0
  show ?case by simp
next
  case (Suc k)
  define L where "L = length d"
  define p' where "p' = (p + 1) mod L"
  define v where "v = decay * 0.5 * (d ! p + d ! p')"
  define d' where "d' = d[p := v]"
  define out' where "out' = ks_loop k decay d' p'"
  have L2: "2 \<le> L" and pL: "p < L" using Suc.prems by (simp_all add: L_def)
  have len': "length d' = L" by (simp add: d'_def L_def)
  have p'L: "p' < L" using L2 by (simp add: p'_def)
  have p'p: "p' \<noteq> p"
    unfolding p'_def using mod_shift_neq [of p L 1] pL L2 by simp
  have out: "ks_loop (Suc k) decay d p = d ! p # out'"
    by (simp add: Let_def out'_def d'_def v_def p'_def L_def)
  have IH: "(\<forall>n<k. n < L \<longrightarrow> out' ! n = d' ! ((p' + n) mod L))
       \<and> (\<forall>n. n + L < k \<longrightarrow> out' ! (n + L) = decay * 0.5 * (out' ! n + out' ! (n + 1)))"
    using Suc.IH [of d' p'] L2 p'L len' by (simp add: out'_def)
  have shift: "(p' + n) mod L = (p + Suc n) mod L" for n
    unfolding p'_def by (simp add: mod_add_left_eq)
  have A: "ks_loop (Suc k) decay d p ! n = d ! ((p + n) mod L)" if "n < Suc k" "n < L" for n
  proof (cases n)
    case 0
    then show ?thesis using pL by (simp add: out del: ks_loop.simps)
  next
    case (Suc m)
    then have "out' ! m = d' ! ((p + n) mod L)"
      using IH that shift [of m] by simp
    moreover have "(p + n) mod L \<noteq> p"
      using mod_shift_neq [of p L n] pL that Suc by simp
    ultimately show ?thesis using Suc by (simp add: out d'_def del: ks_loop.simps)
  qed
  have B: "ks_loop (Suc k) decay d p ! (n + L)
             = decay * 0.5 * (ks_loop (Suc k) decay d p ! n + ks_loop (Suc k) decay d p ! (n + 1))"
    if "n + L < Suc k" for n
  proof (cases n)
    case 0
    have k: "L - 1 < k" "0 < k" using that L2 0 by simp_all
    have "out' ! (L - 1) = d' ! ((p' + (L - 1)) mod L)"
      using IH k L2 by simp
    also have "(p' + (L - 1)) mod L = p"
      using shift [of "L - 1"] L2 pL by simp
    also have "d' ! p = v" using pL by (simp add: d'_def L_def)
    finally have last: "out' ! (L - 1) = v" .
    have "out' ! 0 = d' ! ((p' + 0) mod L)" using IH k L2 by simp
    then have first: "out' ! 0 = d ! p'" using p'L p'p by (simp add: d'_def)
    have "ks_loop (Suc k) decay d p ! (0 + L) = out' ! (L - 1)"
      using L2 by (simp add: out nth_Cons' del: ks_loop.simps)
    then show ?thesis using 0 last first by (simp add: out v_def del: ks_loop.simps)
  next
    case (Suc m)
    then have "m + L < k" using that by simp
    then have "out' ! (m + L) = decay * 0.5 * (out' ! m + out' ! (m + 1))"
      using IH by simp
    then show ?thesis using Suc by (simp add: out del: ks_loop.simps)
  qed
  show ?case using A B unfolding L_def by blast
qed

lemma ks_loop_single:
  assumes "length d = 1"
  shows "(0 < k \<longrightarrow> ks_loop k decay d 0 ! 0 = d ! 0)
       \<and> (\<forall>n. Suc n < k \<longrightarrow>
             ks_loop k decay d 0 ! Suc n
               = decay * 0.5 * (ks_loop k decay d 0 ! n + ks_loop k decay d 0 ! n))"
  using assms
proof (induction k arbitrary: d)
  case 0
  show ?case by simp
next
  case (Suc k)
  define v where "v = decay * 0.5 * (d ! 0 + d ! 0)"
  define out' where "out' = ks_loop k decay (d[0 := v]) 0"
  have out: "ks_loop (Suc k) decay d 0 = d ! 0 # out'"
    using Suc.prems by (simp add: Let_def out'_def v_def)
  have IH: "(0 < k \<longrightarrow> out' ! 0 = v)
       \<and> (\<forall>n. Suc n < k \<longrightarrow> out' ! Suc n = decay * 0.5 * (out' ! n + out' ! n))"
    using Suc.IH [of "d[0 := v]"] Suc.prems by (simp add: out'_def)
  have B: "ks_loop (Suc k) decay d 0 ! Suc n
             = decay * 0.5 * (ks_loop (Suc k) decay d 0 ! n + ks_loop (Suc k) decay d 0 ! n)"
    if "Suc n < Suc k" for n
  proof (cases n)
    case 0
    then show ?thesis using IH that by (simp add: out v_def del: ks_loop.simps)
  next
    case (Suc m)
    then show ?thesis using IH that by (simp add: out del: ks_loop.simps)
  qed
  show ?case using B by (simp add: out del: ks_loop.simps)
qed

lemma seed_of_bounds:
  assumes "\<forall>i. 0 \<le> rnd i \<and> rnd i < 1"
  shows "\<forall>x\<in>set (seed_of rnd n). - 1 \<le> x \<and> x < 1"
proof
  fix x assume "x \<in> set (seed_of rnd n)"
  then obtain i where "x = rnd i * 2 - 1" by (auto simp: seed_of_def)
  moreover have "0 \<le> rnd i" "rnd i < 1" using assms by simp_all
  ultimately show "- 1 \<le> x \<and> x < 1" by simp
qed

lemma karplus_strong_rendering:
  assumes sr: "0 < sr" and f: "0 < f" and len: "1 \<le> bufLen_of sr f"
    and rnd: "\<forall>i. 0 \<le> rnd i \<and> rnd i < 1"
  shows "\<exists>out. pluckString_buffer sr f decay rnd = Samples out
     \<and> bufLen_of sr f = round (sr / f)
     \<and> length (seed_of rnd (nat (bufLen_of sr f))) = nat (bufLen_of sr f)
     \<and> (\<forall>x\<in>set (seed_of rnd (nat (bufLen_of sr f))). - 1 \<le> x \<and> x \<le> 1)
     \<and> int (length out) = \<lceil>sr * 3\<rceil> + 2 * bufLen_of sr f
     \<and> 3 * sr \<le> real (length out)
     \<and> (\<forall>n < nat (bufLen_of sr f). out ! n = seed_of rnd (nat (bufLen_of sr f)) ! n)
     \<and> (\<forall>n. n + nat (bufLen_of sr f) < length out \<longrightarrow>
           out ! (n + nat (bufLen_of sr f))
             = decay * 0.5 * (out ! n + (if bufLen_of sr f = 1 then out ! n else out ! (n + 1))))"
proof -
  define L where "L = nat (bufLen_of sr f)"
  define seed where "seed = seed_of rnd L"
  define total where "total = nat (totalSamples_of sr f)"
  define out where "out = ks_loop total decay seed 0"
  have L1: "1 \<le> L" and Lint: "int L = bufLen_of sr f" using len by (simp_all add: L_def)
  have slen: "length seed = L" by (simp add: seed_def seed_of_def)
  have ceil: "0 \<le> \<lceil>sr * 3\<rceil>" using sr by (simp add: ceiling_le_iff [symmetric] le_ceiling_iff)
  have tot: "int total = \<lceil>sr * 3\<rceil> + 2 * bufLen_of sr f"
    using ceil len by (simp add: total_def totalSamples_of_def)
  have res: "pluckString_buffer sr f decay rnd = Samples out"
    using sr f len by (simp add: pluckString_buffer_def Let_def out_def total_def seed_def L_def)
  have olen: "length out = total" by (simp add: out_def ks_loop_length)
  have three: "3 * sr \<le> real (length out)"
  proof -
    have "sr * 3 \<le> real_of_int \<lceil>sr * 3\<rceil>" by (rule le_of_int_ceiling)
    also have "\<dots> \<le> real_of_int (int total)" using tot len by simp
    finally show ?thesis by (simp add: olen)
  qed
  have bounds: "\<forall>x\<in>set seed. - 1 \<le> x \<and> x \<le> 1"
    using seed_of_bounds [OF rnd, of L] unfolding seed_def by fastforce
  have Ltot: "L < total" using tot Lint ceil len by linarith
  have first: "\<forall>n<L. out ! n = seed ! n"
  proof (cases "L = 1")
    case True
    then show ?thesis using ks_loop_single [of seed total decay] slen Ltot by (simp add: out_def)
  next
    case False
    then have "2 \<le> length seed" "0 < length seed" using L1 slen by simp_all
    from ks_loop_period [OF this, of total decay] Ltot slen show ?thesis
      by (simp add: out_def)
  qed
  have rec: "\<forall>n. n + L < length out \<longrightarrow>
           out ! (n + L) = decay * 0.5 * (out ! n + (if bufLen_of sr f = 1 then out ! n else out ! (n + 1)))"
  proof (cases "L = 1")
    case True
    then have "bufLen_of sr f = 1" using Lint by simp
    then show ?thesis using ks_loop_single [of seed total decay] slen True
      by (simp add: out_def ks_loop_length)
  next
    case False
    then have "bufLen_of sr f \<noteq> 1" using Lint by auto
    moreover have "2 \<le> length seed" "0 < length seed" using False L1 slen by simp_all
    from ks_loop_period [OF this, of total decay] slen
    have "\<forall>n. n + L < total \<longrightarrow> out ! (n + L) = decay * 0.5 * (out ! n + out ! (n + 1))"
      by (simp add: out_def)
    ultimately show ?thesis by (simp add: olen)
  qed
  show ?thesis
    using res slen bounds tot three first rec
    unfolding L_def [symmetric] seed_def [symmetric]
    by (intro exI [of _ out]) (simp add: olen bufLen_of_def L_def seed_def)
qed

text \<open>
  Claim C7. For a positive sample rate and frequency, with \<^verbatim>\<open>Math.random()\<close> in
  \<open>[0, 1)\<close>: the delay line has \<open>round (sr / f)\<close> cells; if that is 0 the buffer holds
  \<open>\<lceil>3 sr\<rceil>\<close> samples that are all \<^verbatim>\<open>NaN\<close>; otherwise the seed has one value in
  \<open>[-1, 1]\<close> per cell, the buffer is one finished list of \<open>\<lceil>3 sr\<rceil> + 2 bufLen\<close> samples,
  which is at least three seconds, its first \<open>bufLen\<close> samples are the seed (each sample
  is the cell under the read pointer), and every later sample is
  \<open>decay * 0.5 * (current + next)\<close> of the two samples one period earlier (the value that
  replaced the cell when it was read).
\<close>

theorem karplus_strong_buffer:
  assumes sr: "0 < sr" and f: "0 < f" and rnd: "\<forall>i. 0 \<le> rnd i \<and> rnd i < 1"
  shows "bufLen_of sr f = round (sr / f) \<and> 0 \<le> bufLen_of sr f
     \<and> (if bufLen_of sr f = 0
        then pluckString_buffer sr f decay rnd = NaN_buffer (nat \<lceil>sr * 3\<rceil>)
        else \<exists>out. pluckString_buffer sr f decay rnd = Samples out
     \<and> length (seed_of rnd (nat (bufLen_of sr f))) = nat (bufLen_of sr f)
     \<and> (\<forall>x\<in>set (seed_of rnd (nat (bufLen_of sr f))). - 1 \<le> x \<and> x \<le> 1)
     \<and> int (length out) = \<lceil>sr * 3\<rceil> + 2 * bufLen_of sr f
     \<and> 3 * sr \<le> real (length out)
     \<and> (\<forall>n < nat (bufLen_of sr f). out ! n = seed_of rnd (nat (bufLen_of sr f)) ! n)
     \<and> (\<forall>n. n + nat (bufLen_of sr f) < length out \<longrightarrow>
           out ! (n + nat (bufLen_of sr f))
             = decay * 0.5 * (out ! n + (if bufLen_of sr f = 1 then out ! n else out ! (n + 1)))))"
proof -
  have nonneg: "0 \<le> bufLen_of sr f"
    using sr f by (simp add: bufLen_of_def round_def)
  show ?thesis
  proof (cases "bufLen_of sr f = 0")
    case True
    then show ?thesis using sr f
      by (simp add: pluckString_buffer_def totalSamples_of_def Let_def bufLen_of_def)
  next
    case False
    then have "1 \<le> bufLen_of sr f" using nonneg by simp
    from karplus_strong_rendering [OF sr f this rnd, of decay] False nonneg show ?thesis
      by (simp add: bufLen_of_def)
  qed
qed

theorem karplus_strong_buffer_witness:
  "(0::real) < 4 \<and> (0::real) < 2
   \<and> (\<forall>i. 0 \<le> (if i = 0 then 3 / 4 else 1 / 4 :: real) \<and> (if i = 0 then 3 / 4 else 1 / 4 :: real) < 1)
   \<and> (\<exists>out. pluckString_buffer 4 2 (1 / 2) (\<lambda>i. if i = 0 then 3 / 4 else 1 / 4) = Samples out
        \<and> length out = 16 \<and> out ! 0 = 1 / 2 \<and> out ! 1 = - 1 / 2 \<and> out ! 2 = 0)"
proof -
  have b: "bufLen_of 4 2 = 2" by (simp add: bufLen_of_def)
  have r: "\<forall>i. 0 \<le> (if i = 0 then 3 / 4 else 1 / 4 :: real) \<and> (if i = 0 then 3 / 4 else 1 / 4 :: real) < 1"
    by simp
  have s: "seed_of (\<lambda>i. if i = 0 then 3 / 4 else 1 / 4) 2 = [1 / 2, - 1 / 2]"
    by (simp add: seed_of_def upt_conv_Cons numeral_2_eq_2)
  have p4: "(0::real) < 4" and p2: "(0::real) < 2" and l1: "1 \<le> bufLen_of 4 2"
    using b by simp_all
  have "\<exists>out. pluckString_buffer 4 2 (1 / 2) (\<lambda>i. if i = 0 then 3 / 4 else 1 / 4) = Samples out
     \<and> length (seed_of (\<lambda>i. if i = 0 then 3 / 4 else 1 / 4) (nat (bufLen_of 4 2))) = nat (bufLen_of 4 2)
     \<and> (\<forall>x\<in>set (seed_of (\<lambda>i. if i = 0 then 3 / 4 else 1 / 4) (nat (bufLen_of 4 2))). - 1 \<le> x \<and> x \<le> 1)
     \<and> int (length out) = \<lceil>(4::real) * 3\<rceil> + 2 * bufLen_of 4 2
     \<and> 3 * (4::real) \<le> real (length out)
     \<and> (\<forall>n < nat (bufLen_of 4 2). out ! n = seed_of (\<lambda>i. if i = 0 then 3 / 4 else 1 / 4) (nat (bufLen_of 4 2)) ! n)
     \<and> (\<forall>n. n + nat (bufLen_of 4 2) < length out \<longrightarrow>
           out ! (n + nat (bufLen_of 4 2))
             = (1 / 2) * 0.5 * (out ! n + (if bufLen_of 4 2 = 1 then out ! n else out ! (n + 1))))"
    using karplus_strong_buffer [OF p4 p2 r, of "1 / 2"] b by (simp only: if_False) simp
  then obtain out where o: "pluckString_buffer 4 2 (1 / 2) (\<lambda>i. if i = 0 then 3 / 4 else 1 / 4) = Samples out
     \<and> length (seed_of (\<lambda>i. if i = 0 then 3 / 4 else 1 / 4) (nat (bufLen_of 4 2))) = nat (bufLen_of 4 2)
     \<and> (\<forall>x\<in>set (seed_of (\<lambda>i. if i = 0 then 3 / 4 else 1 / 4) (nat (bufLen_of 4 2))). - 1 \<le> x \<and> x \<le> 1)
     \<and> int (length out) = \<lceil>(4::real) * 3\<rceil> + 2 * bufLen_of 4 2
     \<and> 3 * (4::real) \<le> real (length out)
     \<and> (\<forall>n < nat (bufLen_of 4 2). out ! n = seed_of (\<lambda>i. if i = 0 then 3 / 4 else 1 / 4) (nat (bufLen_of 4 2)) ! n)
     \<and> (\<forall>n. n + nat (bufLen_of 4 2) < length out \<longrightarrow>
           out ! (n + nat (bufLen_of 4 2))
             = (1 / 2) * 0.5 * (out ! n + (if bufLen_of 4 2 = 1 then out ! n else out ! (n + 1))))"
    by (rule exE)
  have out: "pluckString_buffer 4 2 (1 / 2) (\<lambda>i. if i = 0 then 3 / 4 else 1 / 4) = Samples out"
    "int (length out) = \<lceil>(4::real) * 3\<rceil> + 2 * bufLen_of 4 2"
    "\<forall>n < nat (bufLen_of 4 2). out ! n = seed_of (\<lambda>i. if i = 0 then 3 / 4 else 1 / 4) (nat (bufLen_of 4 2)) ! n"
    "\<forall>n. n + nat (bufLen_of 4 2) < length out \<longrightarrow>
           out ! (n + nat (bufLen_of 4 2))
             = (1 / 2) * 0.5 * (out ! n + (if bufLen_of 4 2 = 1 then out ! n else out ! (n + 1)))"
    using o by blast+
  have l: "length out = 16" using out(2) b by simp
  have o0: "out ! 0 = 1 / 2" and o1: "out ! 1 = - 1 / 2"
    using out(3) b s by simp_all
  have "0 + nat (bufLen_of 4 2) < length out" using b l by simp
  with out(4) have "out ! (0 + nat (bufLen_of 4 2))
      = (1 / 2) * 0.5 * (out ! 0 + (if bufLen_of 4 2 = 1 then out ! 0 else out ! (0 + 1)))"
    by blast
  then have "out ! 2 = (1 / 2) * 0.5 * (out ! 0 + out ! 1)"
    using b by (simp add: numeral_2_eq_2)
  then have o2: "out ! 2 = 0" using o0 o1 by simp
  show ?thesis using b r out(1) l o0 o1 o2 by auto
qed

section \<open>Generated measures\<close>

lemma toString_digits:
  "toString 0 = ''0''" "toString 1 = ''1''" "toString 2 = ''2''" "toString 3 = ''3''" "toString 4 = ''4''"
  by (simp_all add: toString_def nat_digits.simps digit_char_def)

lemma parseInt10_digits:
  "parseInt10 ''0'' = Some 0" "parseInt10 ''1'' = Some 1" "parseInt10 ''2'' = Some 2"
  "parseInt10 ''3'' = Some 3" "parseInt10 ''4'' = Some 4"
  by (simp_all add: parseInt10_def is_ws_def is_digit_def digits_value_def digit_val_def Let_def)

lemma toString_allowed:
  assumes "0 \<le> n" "n \<le> 4"
  shows "allowed_cell (toString n)"
proof -
  from assms have "n = 0 \<or> n = 1 \<or> n = 2 \<or> n = 3 \<or> n = 4" by arith
  then show ?thesis by (auto simp: toString_digits allowed_cell_def)
qed

lemma allowed_literals: "allowed_cell ''-''" "allowed_cell ''h2''"
  by (simp_all add: allowed_cell_def)

lemma classify_allowed:
  assumes "allowed_cell c"
  shows "classify (Some c) = Silent \<or> (\<exists>fret. classify (Some c) = Fret fret \<and> 0 \<le> fret \<and> fret \<le> 4)"
  using assms by (auto simp: allowed_cell_def classify_def parseInt10_digits)

lemma well_shaped_blank: "well_shaped (replicate 5 (replicate 16 ''-''))"
  by (simp add: well_shaped_def allowed_cell_def)

lemma well_shaped_set_cell:
  assumes "well_shaped g" and "allowed_cell v"
  shows "well_shaped (set_cell g r c v)"
proof (cases "r < length g")
  case False
  then show ?thesis using assms(1) by (simp add: set_cell_def list_update_beyond)
next
  case True
  then have row: "g ! r \<in> set g" by simp
  have new: "length ((g ! r)[c := v]) = 16 \<and> (\<forall>cell\<in>set ((g ! r)[c := v]). allowed_cell cell)"
  proof
    show "length ((g ! r)[c := v]) = 16" using assms(1) row by (simp add: well_shaped_def)
    show "\<forall>cell\<in>set ((g ! r)[c := v]). allowed_cell cell"
    proof
      fix cell assume "cell \<in> set ((g ! r)[c := v])"
      then have "cell = v \<or> cell \<in> set (g ! r)"
        using set_update_subset_insert [of "g ! r" c v] by auto
      then show "allowed_cell cell" using assms row by (auto simp: well_shaped_def)
    qed
  qed
  show ?thesis
    unfolding well_shaped_def set_cell_def
  proof
    show "length (g[r := (g ! r)[c := v]]) = 5" using assms(1) by (simp add: well_shaped_def)
  next
    show "\<forall>row\<in>set (g[r := (g ! r)[c := v]]).
            length row = 16 \<and> (\<forall>cell\<in>set row. allowed_cell cell)"
    proof
      fix row assume "row \<in> set (g[r := (g ! r)[c := v]])"
      then have "row = (g ! r)[c := v] \<or> row \<in> set g"
        using set_update_subset_insert [of g r "(g ! r)[c := v]"] by auto
      then show "length row = 16 \<and> (\<forall>cell\<in>set row. allowed_cell cell)"
        using new assms(1) by (auto simp: well_shaped_def)
    qed
  qed
qed

lemma chord_frets:
  assumes "map_of CHORD_LIB chordName = Some frets"
  shows "\<forall>k<5. 0 \<le> frets ! k \<and> frets ! k \<le> 4"
proof -
  from assms have "frets \<in> {[0, 0, 0, 0, 0], [2, 1, 0, 2, 0], [4, 3, 2, 0, 0], [1, 2, 0, 0, 0],
                           [0, 0, 0, 2, 0], [0, 1, 2, 2, 0]}"
    by (auto simp: CHORD_LIB_def split: if_splits)
  then show ?thesis by (auto simp: less_Suc_eq eval_nat_numeral nth_Cons')
qed

lemma generateMeasure_well_shaped:
  assumes "map_of CHORD_LIB chordName = Some frets"
  shows "\<exists>g. generateMeasure chordName difficulty variation = Inr g \<and> well_shaped g"
proof -
  have b: "0 \<le> frets ! 0" "frets ! 0 \<le> 4" "0 \<le> frets ! 1" "frets ! 1 \<le> 4"
    "0 \<le> frets ! 2" "frets ! 2 \<le> 4" "0 \<le> frets ! 3" "frets ! 3 \<le> 4"
    "0 \<le> frets ! 4" "frets ! 4 \<le> 4"
    using chord_frets [OF assms] by simp_all
  have two: "allowed_cell (toString 2)" by (simp add: toString_allowed)
  show ?thesis
    using assms b two
    by (simp add: generateMeasure_def Let_def well_shaped_set_cell well_shaped_blank
          toString_allowed allowed_literals)
qed

lemma midiToFreq_mono: "a \<le> b \<Longrightarrow> midiToFreq a \<le> midiToFreq b"
  unfolding midiToFreq_def
  by (intro mult_left_mono powr_mono) (simp_all add: divide_right_mono)

lemma round_ge_1: "1 / 2 \<le> (x::real) \<Longrightarrow> 1 \<le> round x"
  by (simp add: round_def le_floor_iff)

lemma bufLen_generated:
  assumes "str < 5" and "0 \<le> fret" "fret \<le> 4" and "1000 \<le> sr"
  shows "1 \<le> bufLen_of sr (midiToFreq (real_of_int (OPEN_MIDI ! str + fret)))"
proof -
  have "OPEN_MIDI ! str \<le> 79"
    using assms(1) by (auto simp: OPEN_MIDI_def less_Suc_eq eval_nat_numeral nth_Cons')
  then have "real_of_int (OPEN_MIDI ! str + fret) \<le> 93" using assms(3) by simp
  then have "midiToFreq (real_of_int (OPEN_MIDI ! str + fret)) \<le> midiToFreq 93"
    by (rule midiToFreq_mono)
  also have "midiToFreq 93 = 1760" by (simp add: midiToFreq_def)
  finally have le: "midiToFreq (real_of_int (OPEN_MIDI ! str + fret)) \<le> 1760" .
  have pos: "0 < midiToFreq (real_of_int (OPEN_MIDI ! str + fret))" by (rule midiToFreq_pos)
  have "1 / 2 \<le> sr / midiToFreq (real_of_int (OPEN_MIDI ! str + fret))"
    using le pos assms(4) by (simp add: field_simps)
  then show ?thesis unfolding bufLen_of_def by (rule round_ge_1)
qed


lemma well_shaped_cell_at:
  assumes "well_shaped g" and "str < 5" and "pos < 16"
  shows "cell_at g str pos = Inr (Some (g ! str ! pos)) \<and> allowed_cell (g ! str ! pos)"
proof -
  have "g ! str \<in> set g" using assms(1,2) by (simp add: well_shaped_def)
  then have "length (g ! str) = 16" "\<forall>cell\<in>set (g ! str). allowed_cell cell"
    using assms(1) by (auto simp: well_shaped_def)
  then show ?thesis using assms by (simp add: cell_at_def well_shaped_def)
qed

text \<open>
  Claim C10. For every chord of \<^verbatim>\<open>CHORD_LIB\<close>, every difficulty and every variation,
  \<^verbatim>\<open>generateMeasure\<close> returns a grid of 5 rows of 16 cells, every cell
  \<^verbatim>\<open>'-'\<close>, \<^verbatim>\<open>'h2'\<close> or one digit from 0 to 4. So at every string and position
  \<^verbatim>\<open>scheduleNote\<close> finds a cell that is silent or a fret, never one it has to skip as
  unparseable, and for a sample rate of at least 1000 Hz (no audio context runs lower) the
  delay line of every fret it plays has at least one cell.
\<close>

theorem generated_measures_well_formed:
  assumes "map_of CHORD_LIB chordName = Some frets" and "1000 \<le> sampleRate"
  shows "\<exists>g. generateMeasure chordName difficulty variation = Inr g
      \<and> length g = 5 \<and> (\<forall>row\<in>set g. length row = 16)
      \<and> (\<forall>row\<in>set g. \<forall>cell\<in>set row.
            cell = ''-'' \<or> cell = ''h2'' \<or> cell \<in> {''0'', ''1'', ''2'', ''3'', ''4''})
      \<and> (\<forall>str<5. \<forall>pos<16. \<exists>cell. cell_at g str pos = Inr (Some cell)
            \<and> classify (Some cell) \<noteq> Unparseable
            \<and> (\<forall>fret. classify (Some cell) = Fret fret \<longrightarrow>
                 1 \<le> bufLen_of sampleRate (midiToFreq (real_of_int (OPEN_MIDI ! str + fret)))))"
proof -
  obtain g where g: "generateMeasure chordName difficulty variation = Inr g" "well_shaped g"
    using generateMeasure_well_shaped [OF assms(1)] by blast
  have shape: "length g = 5" "\<forall>row\<in>set g. length row = 16"
    using g(2) by (simp_all add: well_shaped_def)
  have cells: "\<forall>row\<in>set g. \<forall>cell\<in>set row.
            cell = ''-'' \<or> cell = ''h2'' \<or> cell \<in> {''0'', ''1'', ''2'', ''3'', ''4''}"
    using g(2) by (auto simp: well_shaped_def allowed_cell_def)
  have sched: "\<exists>cell. cell_at g str pos = Inr (Some cell)
            \<and> classify (Some cell) \<noteq> Unparseable
            \<and> (\<forall>fret. classify (Some cell) = Fret fret \<longrightarrow>
                 1 \<le> bufLen_of sampleRate (midiToFreq (real_of_int (OPEN_MIDI ! str + fret))))"
    if "str < 5" "pos < 16" for str pos
  proof -
    have c: "cell_at g str pos = Inr (Some (g ! str ! pos))" "allowed_cell (g ! str ! pos)"
      using well_shaped_cell_at [OF g(2) that] by simp_all
    have k: "classify (Some (g ! str ! pos)) = Silent
        \<or> (\<exists>fret. classify (Some (g ! str ! pos)) = Fret fret \<and> 0 \<le> fret \<and> fret \<le> 4)"
      using c(2) by (rule classify_allowed)
    have "1 \<le> bufLen_of sampleRate (midiToFreq (real_of_int (OPEN_MIDI ! str + fret)))"
      if "classify (Some (g ! str ! pos)) = Fret fret" for fret
      using k that bufLen_generated [OF \<open>str < 5\<close> _ _ assms(2), of fret] by auto
    then show ?thesis using c(1) k by auto
  qed
  have all: "\<forall>str<5. \<forall>pos<16. \<exists>cell. cell_at g str pos = Inr (Some cell)
            \<and> classify (Some cell) \<noteq> Unparseable
            \<and> (\<forall>fret. classify (Some cell) = Fret fret \<longrightarrow>
                 1 \<le> bufLen_of sampleRate (midiToFreq (real_of_int (OPEN_MIDI ! str + fret))))"
    using sched by (intro allI impI)
  show ?thesis
    by (rule exI [of _ g]) (intro conjI g(1) shape cells all)
qed

lemma gm_G: "generateMeasure ''G'' ''easy'' 0 = Inr measure_G"
  by (simp add: generateMeasure_def CHORD_LIB_def set_cell_def js_rem_def measure_G_def toString_digits
        Let_def eval_nat_numeral)

theorem generated_measures_well_formed_witness:
  "map_of CHORD_LIB ''G'' = Some [0, 0, 0, 0, 0] \<and> (1000::real) \<le> 44100
   \<and> generateMeasure ''G'' ''easy'' 0 = Inr measure_G
   \<and> length measure_G = 5
   \<and> cell_at measure_G 0 0 = Inr (Some ''0'')
   \<and> classify (Some ''0'') = Fret 0
   \<and> 1 \<le> bufLen_of 44100 (midiToFreq (real_of_int (OPEN_MIDI ! 0 + 0)))"
proof -
  have m: "map_of CHORD_LIB ''G'' = Some [0, 0, 0, 0, 0]" by (simp add: CHORD_LIB_def)
  have r: "(1000::real) \<le> 44100" by simp
  from generated_measures_well_formed [OF m r, of "''easy''" 0]
  obtain g where all: "generateMeasure ''G'' ''easy'' 0 = Inr g
      \<and> length g = 5 \<and> (\<forall>row\<in>set g. length row = 16)
      \<and> (\<forall>row\<in>set g. \<forall>cell\<in>set row.
            cell = ''-'' \<or> cell = ''h2'' \<or> cell \<in> {''0'', ''1'', ''2'', ''3'', ''4''})
      \<and> (\<forall>str<5. \<forall>pos<16. \<exists>cell. cell_at g str pos = Inr (Some cell)
            \<and> classify (Some cell) \<noteq> Unparseable
            \<and> (\<forall>fret. classify (Some cell) = Fret fret \<longrightarrow>
                 1 \<le> bufLen_of 44100 (midiToFreq (real_of_int (OPEN_MIDI ! str + fret)))))"
    by (rule exE)
  have g: "generateMeasure ''G'' ''easy'' 0 = Inr g" "length g = 5"
    using all by (rule conjunct1, rule conjunct2 [THEN conjunct1])
  have s: "\<forall>str<5. \<forall>pos<16. \<exists>cell. cell_at g str pos = Inr (Some cell)
            \<and> classify (Some cell) \<noteq> Unparseable
            \<and> (\<forall>fret. classify (Some cell) = Fret fret \<longrightarrow>
                 1 \<le> bufLen_of 44100 (midiToFreq (real_of_int (OPEN_MIDI ! str + fret))))"
    using all by (rule conjunct2 [THEN conjunct2, THEN conjunct2, THEN conjunct2])
  have gG: "g = measure_G" using g(1) gm_G by simp
  have c: "cell_at measure_G 0 0 = Inr (Some ''0'')"
    by (simp add: cell_at_def measure_G_def)
  have k: "classify (Some ''0'') = Fret 0"
    by (simp add: classify_def parseInt10_digits)
  from s have "\<exists>cell. cell_at g 0 0 = Inr (Some cell)
            \<and> classify (Some cell) \<noteq> Unparseable
            \<and> (\<forall>fret. classify (Some cell) = Fret fret \<longrightarrow>
                 1 \<le> bufLen_of 44100 (midiToFreq (real_of_int (OPEN_MIDI ! 0 + fret))))"
    by simp
  then obtain cell where cell: "cell_at g 0 0 = Inr (Some cell)"
    "\<forall>fret. classify (Some cell) = Fret fret \<longrightarrow>
                 1 \<le> bufLen_of 44100 (midiToFreq (real_of_int (OPEN_MIDI ! 0 + fret)))"
    by blast
  have "cell = ''0''" using cell(1) c gG by simp
  then have b: "1 \<le> bufLen_of 44100 (midiToFreq (real_of_int (OPEN_MIDI ! 0 + 0)))"
    using cell(2) k by blast
  have l: "length measure_G = 5" using g(2) gG by simp
  show ?thesis by (intro conjI m r gm_G l c k b)
qed

section \<open>Stopping right after starting\<close>

lemma no_wake_before_play:
  assumes "no_orphan_wake s"
  shows "\<forall>t\<in>set (pending (before_play s)). kind t \<noteq> SchedulerWake"
proof (cases "isPlaying s")
  case False
  then show ?thesis using assms by (auto simp: before_play_def no_orphan_wake_def)
next
  case True
  then show ?thesis using assms
    by (auto simp: before_play_def no_orphan_wake_def stopSong_frame split: option.splits)
qed

lemma play_stop_silent:
  assumes orphan: "no_orphan_wake s" and fresh: "\<forall>t\<in>set (pending s). tid t < nextId s"
    and play: "step (Play allMeasures bpm onStop opts) s = Some s1"
    and stop: "step Stop s1 = Some s2"
  shows "calls s2 = calls s \<and> fired s2 = fired s \<and> no_wake s2 \<and> \<not> isPlaying s2"
proof -
  define b where "b = before_play s"
  have fb: "\<forall>t\<in>set (pending b). tid t \<noteq> nextId s"
    using fresh pending_before_play [of s] unfolding b_def by fastforce
  have nb: "\<forall>t\<in>set (pending b). kind t \<noteq> SchedulerWake"
    unfolding b_def using orphan by (rule no_wake_before_play)
  have bf: "calls b = calls s" "fired b = fired s"
    unfolding b_def by (simp_all add: before_play_def stopSong_frame)
  obtain c where "playSong allMeasures bpm onStop opts s =
     Some (Normal (b
       \<lparr>audioCtx := Some c, isPlaying := True, currentBpm := bpm, currentMeasures := allMeasures,
        currentPlayOpts := opts, masterOnStop := onStop, currentMeasure := 0, currentPos := 0,
        nextNoteTime := currentTime c + 0.1,
        pending := pending b @
           [\<lparr>tid = nextId s, due = wall s + 0.025, kind = SchedulerWake\<rparr>],
        nextId := nextId s + 1, timerID := Some (nextId s)\<rparr>))"
    using playSong_result [of allMeasures bpm onStop opts s] unfolding b_def by blast
  with play have s1: "s1 = b
       \<lparr>audioCtx := Some c, isPlaying := True, currentBpm := bpm, currentMeasures := allMeasures,
        currentPlayOpts := opts, masterOnStop := onStop, currentMeasure := 0, currentPos := 0,
        nextNoteTime := currentTime c + 0.1,
        pending := pending b @
           [\<lparr>tid = nextId s, due = wall s + 0.025, kind = SchedulerWake\<rparr>],
        nextId := nextId s + 1, timerID := Some (nextId s)\<rparr>"
    by simp
  have s2: "s2 = stopSong s1" using stop by simp
  have "pending s2 = pending b"
    unfolding s2 s1 using fb by (simp add: stopSong_frame filter_fresh)
  then show ?thesis
    using nb bf unfolding no_wake_def by (simp add: s2 s1 stopSong_frame)
qed

lemma no_wake_step:
  assumes "no_play e" and "no_wake s" and "step e s = Some s'"
  shows "no_wake s' \<and> calls s' = calls s"
proof (cases e)
  case (Play ms b cb opts)
  with assms(1) show ?thesis by simp
next
  case Stop
  with assms(2,3) show ?thesis
    by (auto simp: no_wake_def stopSong_frame split: option.splits)
next
  case (UpdateSettings bVol mVol mPitch mEnabled mAccent)
  with assms(2,3) show ?thesis
    by (auto simp: no_wake_def updateAudioSettings_def Let_def split: option.splits)
next
  case (Tick dt adt)
  with assms(2,3) show ?thesis
    by (auto simp: no_wake_def split: if_splits)
next
  case (Fire i)
  with assms(3) have f: "fire i s = Some s'" by simp
  then obtain t where t: "find (\<lambda>t. tid t = i) (pending s) = Some t"
    by (auto simp: fire_def split: option.splits)
  then have "t \<in> set (pending s)" by (auto simp: find_Some_iff)
  then have "kind t = DrainEnd" using assms(2) by (cases "kind t") (auto simp: no_wake_def)
  with f t have "s' = drain_callback (s\<lparr>pending := filter (\<lambda>t. tid t \<noteq> i) (pending s)\<rparr>)"
    by (auto simp: fire_def Let_def split: if_splits)
  then show ?thesis using assms(2)
    by (auto simp: no_wake_def drain_callback_def Let_def split: option.splits)
qed

lemma no_wake_run:
  assumes "\<forall>e\<in>set evs. no_play e" and "no_wake s" and "run evs s = Some s'"
  shows "calls s' = calls s"
  using assms
proof (induction evs arbitrary: s)
  case Nil
  then show ?case by simp
next
  case (Cons e evs)
  from Cons.prems(3) obtain s1 where s1: "step e s = Some s1" "run evs s1 = Some s'"
    by (auto split: option.splits)
  have "no_wake s1 \<and> calls s1 = calls s"
    using Cons.prems(1,2) s1(1) by (intro no_wake_step [of e]) auto
  then show ?case using Cons.IH [of s1] Cons.prems(1) s1(2) by auto
qed

lemma stop_right_after_start_silent:
  assumes "no_orphan_wake s" and "\<forall>t\<in>set (pending s). tid t < nextId s"
    and "step (Play allMeasures bpm onStop opts) s = Some s1"
    and "step Stop s1 = Some s2"
    and "\<forall>e\<in>set evs. no_play e" and "run evs s2 = Some s3"
  shows "calls s3 = calls s"
  using play_stop_silent [OF assms(1-4)] no_wake_run [OF assms(5) _ assms(6)] by simp

lemma initial_no_orphan: "no_orphan_wake initial" "\<forall>t\<in>set (pending initial). tid t < nextId initial"
  by (simp_all add: no_orphan_wake_def initial_def)

section \<open>Timer ids\<close>

text \<open>The ids of pending timers stay below the next id.\<close>

lemma fresh_scheduler:
  assumes "scheduler s = Some r"
  shows "\<forall>t\<in>set (pending s). tid t < nextId s \<Longrightarrow>
         \<forall>t\<in>set (pending (state_of r)). tid t < nextId (state_of r)"
  using assms
proof (induction rule: scheduler_induct)
  case (pass sched s0 r)
  define s where "s = snd (getAudioCtx s0)"
  have fs: "\<forall>t\<in>set (pending s). tid t < nextId s"
    unfolding s_def using pass.prems by simp
  note body = pass.hyps [unfolded Let_def, folded s_def]
  show ?case
  proof (cases "nextNoteTime s < currentTime (fst (getAudioCtx s0)) + SCHEDULE_AHEAD_TIME")
    case False
    with body have "r = Normal ((snd (setTimeout SchedulerWake LOOKAHEAD s))\<lparr>timerID := Some (fst (setTimeout SchedulerWake LOOKAHEAD s))\<rparr>)"
      by simp
    then show ?thesis using fs by (auto simp: setTimeout_def)
  next
    case True
    note within = this
    show ?thesis
    proof (cases "length (currentMeasures s) \<le> currentMeasure s")
      case True
      with within body have "r = Normal (snd (setTimeout DrainEnd ((nextNoteTime s - currentTime (fst (getAudioCtx s0))) * 1000 + 3500) s))"
        by simp
      then show ?thesis using fs by (auto simp: setTimeout_def)
    next
      case False
      define c where "c = scheduleNote (currentMeasure s) (currentPos s) (nextNoteTime s) s"
      have "emits (\<lambda>c. call_pos c = (currentMeasure s, currentPos s) \<and> call_time c = nextNoteTime s)
              (snd (getAudioCtx s)) (state_of c)"
        unfolding c_def by (rule scheduleNote_emits)
      then have fc: "\<forall>t\<in>set (pending (state_of c)). tid t < nextId (state_of c)"
        using fs by (auto simp: emits_def)
      show ?thesis
      proof (cases c)
        case (Throw e s')
        with within False body have "r = Throw e s'" by (simp add: c_def)
        with fc Throw show ?thesis by simp
      next
        case (Normal s')
        with within False body have "sched (nextNote s') = Some r" by (simp add: c_def)
        moreover have "\<forall>t\<in>set (pending (nextNote s')). tid t < nextId (nextNote s')"
          using fc Normal by (simp add: nextNote_def Let_def)
        ultimately show ?thesis by (rule pass.IH)
      qed
    qed
  qed
qed

lemma fresh_step:
  assumes "step e s = Some s'" and fresh: "\<forall>t\<in>set (pending s). tid t < nextId s"
  shows "\<forall>t\<in>set (pending s'). tid t < nextId s'"
proof (cases e)
  case (Play ms b cb opts)
  obtain c where "playSong ms b cb opts s =
     Some (Normal ((before_play s)
       \<lparr>audioCtx := Some c, isPlaying := True, currentBpm := b, currentMeasures := ms,
        currentPlayOpts := opts, masterOnStop := cb, currentMeasure := 0, currentPos := 0,
        nextNoteTime := currentTime c + 0.1,
        pending := pending (before_play s) @
           [\<lparr>tid = nextId s, due = wall s + 0.025, kind = SchedulerWake\<rparr>],
        nextId := nextId s + 1, timerID := Some (nextId s)\<rparr>))"
    using playSong_result by blast
  with Play assms(1) have "pending s' = pending (before_play s) @
           [\<lparr>tid = nextId s, due = wall s + 0.025, kind = SchedulerWake\<rparr>]"
    "nextId s' = nextId s + 1"
    by auto
  then show ?thesis using fresh pending_before_play [of s] by fastforce
next
  case Stop
  with assms show ?thesis by (auto simp: stopSong_frame split: option.splits)
next
  case (UpdateSettings bVol mVol mPitch mEnabled mAccent)
  with assms show ?thesis by (auto simp: updateAudioSettings_def Let_def split: option.splits)
next
  case (Tick dt adt)
  with assms show ?thesis by (auto split: if_splits)
next
  case (Fire i)
  with assms(1) have f: "fire i s = Some s'" by simp
  then obtain t where t: "find (\<lambda>t. tid t = i) (pending s) = Some t"
    by (auto simp: fire_def split: option.splits)
  define s1 where "s1 = s\<lparr>pending := filter (\<lambda>t. tid t \<noteq> i) (pending s)\<rparr>"
  have f1: "\<forall>t\<in>set (pending s1). tid t < nextId s1"
    using fresh by (simp add: s1_def)
  show ?thesis
  proof (cases "kind t")
    case SchedulerWake
    with f t obtain r where "scheduler s1 = Some r" "s' = state_of r"
      by (auto simp: fire_def s1_def Let_def split: if_splits)
    then show ?thesis using f1 fresh_scheduler by blast
  next
    case DrainEnd
    with f t have "s' = drain_callback s1"
      by (auto simp: fire_def s1_def Let_def split: if_splits)
    then show ?thesis using f1
      by (auto simp: drain_callback_def Let_def split: option.splits)
  qed
qed

lemma fresh_run:
  assumes "run evs s = Some s'" and "\<forall>t\<in>set (pending s). tid t < nextId s"
  shows "\<forall>t\<in>set (pending s'). tid t < nextId s'"
  using assms
proof (induction evs arbitrary: s)
  case Nil
  then show ?case by simp
next
  case (Cons e evs)
  from Cons.prems(1) obtain s1 where s1: "step e s = Some s1" "run evs s1 = Some s'"
    by (auto split: option.splits)
  have "\<forall>t\<in>set (pending s1). tid t < nextId s1"
    using s1(1) Cons.prems(2) by (rule fresh_step)
  then show ?case using Cons.IH s1(2) by blast
qed

section \<open>The scheduling loop returns\<close>

lemma scheduler_returns:
  assumes "currentPos s < 16"
  shows "\<exists>r. scheduler s = Some r"
  using assms
proof (induction "16 * (length (currentMeasures s) - currentMeasure s) + (16 - currentPos s)"
        arbitrary: s rule: less_induct)
  case less
  define s' where "s' = snd (getAudioCtx s)"
  define c where "c = scheduleNote (currentMeasure s') (currentPos s') (nextNoteTime s') s'"
  have unfold: "scheduler s =
     (if nextNoteTime s' < currentTime (fst (getAudioCtx s)) + SCHEDULE_AHEAD_TIME
      then (if currentMeasure s' \<ge> length (currentMeasures s')
            then Some (Normal (snd (setTimeout DrainEnd
                   ((nextNoteTime s' - currentTime (fst (getAudioCtx s))) * 1000 + 3500) s')))
            else (case c of
                    Throw e s'' \<Rightarrow> Some (Throw e s'')
                  | Normal s'' \<Rightarrow> scheduler (nextNote s'')))
      else Some (Normal ((snd (setTimeout SchedulerWake LOOKAHEAD s'))
                   \<lparr>timerID := Some (fst (setTimeout SchedulerWake LOOKAHEAD s'))\<rparr>)))"
    by (subst scheduler.simps) (simp add: Let_def s'_def c_def)
  show ?case
  proof (cases "nextNoteTime s' < currentTime (fst (getAudioCtx s)) + SCHEDULE_AHEAD_TIME
                 \<and> \<not> currentMeasure s' \<ge> length (currentMeasures s')")
    case False
    then show ?thesis unfolding unfold by auto
  next
    case True
    show ?thesis
    proof (cases c)
      case (Throw e s'')
      then show ?thesis unfolding unfold using True by simp
    next
      case (Normal s'')
      have "emits (\<lambda>c. call_pos c = (currentMeasure s', currentPos s') \<and> call_time c = nextNoteTime s')
              (snd (getAudioCtx s')) (state_of c)"
        unfolding c_def by (rule scheduleNote_emits)
      then have same: "currentMeasures s'' = currentMeasures s" "currentMeasure s'' = currentMeasure s"
        "currentPos s'' = currentPos s"
        using Normal by (auto simp: emits_def s'_def)
      have lt: "currentMeasure s < length (currentMeasures s)"
        using True by (simp add: s'_def)
      have pos: "currentPos (nextNote s'') < 16"
        using less.prems same by (simp add: nextNote_def Let_def)
      have dec: "16 * (length (currentMeasures (nextNote s'')) - currentMeasure (nextNote s''))
                   + (16 - currentPos (nextNote s''))
                 < 16 * (length (currentMeasures s) - currentMeasure s) + (16 - currentPos s)"
        using less.prems same lt by (auto simp: nextNote_def Let_def)
      from less.hyps [OF dec pos] show ?thesis
        unfolding unfold using True Normal by simp
    qed
  qed
qed

lemma pos_scheduler:
  assumes "scheduler s = Some r"
  shows "currentPos s < 16 \<Longrightarrow> currentPos (state_of r) < 16"
  using assms
proof (induction rule: scheduler_induct)
  case (pass sched s0 r)
  define s where "s = snd (getAudioCtx s0)"
  have ps: "currentPos s < 16" unfolding s_def using pass.prems by simp
  note body = pass.hyps [unfolded Let_def, folded s_def]
  show ?case
  proof (cases "nextNoteTime s < currentTime (fst (getAudioCtx s0)) + SCHEDULE_AHEAD_TIME")
    case False
    with body have "r = Normal ((snd (setTimeout SchedulerWake LOOKAHEAD s))\<lparr>timerID := Some (fst (setTimeout SchedulerWake LOOKAHEAD s))\<rparr>)"
      by simp
    then show ?thesis using ps by (simp add: setTimeout_def)
  next
    case True
    note within = this
    show ?thesis
    proof (cases "length (currentMeasures s) \<le> currentMeasure s")
      case True
      with within body have "r = Normal (snd (setTimeout DrainEnd ((nextNoteTime s - currentTime (fst (getAudioCtx s0))) * 1000 + 3500) s))"
        by simp
      then show ?thesis using ps by (simp add: setTimeout_def)
    next
      case False
      define c where "c = scheduleNote (currentMeasure s) (currentPos s) (nextNoteTime s) s"
      have "emits (\<lambda>c. call_pos c = (currentMeasure s, currentPos s) \<and> call_time c = nextNoteTime s)
              (snd (getAudioCtx s)) (state_of c)"
        unfolding c_def by (rule scheduleNote_emits)
      then have pc: "currentPos (state_of c) < 16"
        using ps by (auto simp: emits_def)
      show ?thesis
      proof (cases c)
        case (Throw e s')
        with within False body have "r = Throw e s'" by (simp add: c_def)
        with pc Throw show ?thesis by simp
      next
        case (Normal s')
        with within False body have "sched (nextNote s') = Some r" by (simp add: c_def)
        moreover have "currentPos (nextNote s') < 16"
          using pc Normal by (simp add: nextNote_def Let_def)
        ultimately show ?thesis by (rule pass.IH)
      qed
    qed
  qed
qed

lemma pos_step:
  assumes "step e s = Some s'" and pos: "currentPos s < 16"
  shows "currentPos s' < 16"
proof (cases e)
  case (Play ms b cb opts)
  obtain c where "playSong ms b cb opts s =
     Some (Normal ((before_play s)
       \<lparr>audioCtx := Some c, isPlaying := True, currentBpm := b, currentMeasures := ms,
        currentPlayOpts := opts, masterOnStop := cb, currentMeasure := 0, currentPos := 0,
        nextNoteTime := currentTime c + 0.1,
        pending := pending (before_play s) @
           [\<lparr>tid = nextId s, due = wall s + 0.025, kind = SchedulerWake\<rparr>],
        nextId := nextId s + 1, timerID := Some (nextId s)\<rparr>))"
    using playSong_result by blast
  with Play assms(1) show ?thesis by auto
next
  case Stop
  with assms show ?thesis by (auto simp: stopSong_frame)
next
  case (UpdateSettings bVol mVol mPitch mEnabled mAccent)
  with assms show ?thesis by (auto simp: updateAudioSettings_def Let_def split: option.splits)
next
  case (Tick dt adt)
  with assms show ?thesis by (auto split: if_splits)
next
  case (Fire i)
  with assms(1) have f: "fire i s = Some s'" by simp
  then obtain t where t: "find (\<lambda>t. tid t = i) (pending s) = Some t"
    by (auto simp: fire_def split: option.splits)
  define s1 where "s1 = s\<lparr>pending := filter (\<lambda>t. tid t \<noteq> i) (pending s)\<rparr>"
  have p1: "currentPos s1 < 16" using pos by (simp add: s1_def)
  show ?thesis
  proof (cases "kind t")
    case SchedulerWake
    with f t obtain r where "scheduler s1 = Some r" "s' = state_of r"
      by (auto simp: fire_def s1_def Let_def split: if_splits)
    then show ?thesis using p1 pos_scheduler by blast
  next
    case DrainEnd
    with f t have "s' = drain_callback s1"
      by (auto simp: fire_def s1_def Let_def split: if_splits)
    then show ?thesis using p1
      by (auto simp: drain_callback_def Let_def split: option.splits)
  qed
qed

lemma pos_run:
  assumes "run evs s = Some s'" and "currentPos s < 16"
  shows "currentPos s' < 16"
  using assms
proof (induction evs arbitrary: s)
  case Nil
  then show ?case by simp
next
  case (Cons e evs)
  from Cons.prems(1) obtain s1 where s1: "step e s = Some s1" "run evs s1 = Some s'"
    by (auto split: option.splits)
  have "currentPos s1 < 16" using s1(1) Cons.prems(2) by (rule pos_step)
  then show ?case using Cons.IH s1(2) by blast
qed

text \<open>
  In every state the engine can reach from loading, the timer ids are below the next id
  and \<^verbatim>\<open>scheduler\<close> returns.
\<close>

lemma reachable_fresh:
  assumes "run evs initial = Some s"
  shows "\<forall>t\<in>set (pending s). tid t < nextId s"
  using assms by (rule fresh_run) (simp add: initial_def)

lemma reachable_scheduler_returns:
  assumes "run evs initial = Some s"
  shows "\<exists>r. scheduler s = Some r"
proof -
  have "currentPos s < 16" using assms by (rule pos_run) (simp add: initial_def)
  then show ?thesis by (rule scheduler_returns)
qed

section \<open>A drain timer that outlives its session\<close>

text \<open>The session \<open>stale_drain_session\<close>, evaluated.\<close>

lemma stale_drain_eval:
  "map_option (\<lambda>s. (fired s, isPlaying s, masterOnStop s, length (currentMeasures s),
                     currentMeasure s, currentPos s, map kind (pending s)))
     (run stale_drain_session initial)
   = Some ([2], False, Some 2, 2, 0, 0, [SchedulerWake])"
  by (simp add: stale_drain_session_def eng_defs scheduler.simps)

text \<open>
  Claim C1 fails on \<open>stale_drain_session\<close>. The drain timer of the first session, which
  was stopped, fires while the second session is running and runs
  \<^verbatim>\<open>if (isPlaying) { isPlaying = false; if (masterOnStop) masterOnStop(); }\<close> on the
  second session's globals: the second session's callback (number 2) is invoked and the
  running flag cleared although that session has two measures, stands at measure 0,
  position 0, and still has its wake-up timer pending.
\<close>

theorem stale_drain_fires_callback_early:
  "map_option fired (run stale_drain_session initial) = Some [2]
   \<and> map_option isPlaying (run stale_drain_session initial) = Some False
   \<and> map_option masterOnStop (run stale_drain_session initial) = Some (Some 2)
   \<and> map_option (length \<circ> currentMeasures) (run stale_drain_session initial) = Some 2
   \<and> map_option currentMeasure (run stale_drain_session initial) = Some 0
   \<and> map_option currentPos (run stale_drain_session initial) = Some 0
   \<and> map_option (map kind \<circ> pending) (run stale_drain_session initial) = Some [SchedulerWake]"
  using stale_drain_eval by (cases "run stale_drain_session initial") simp_all

lemma restart_and_stop_eval:
  "map_option (\<lambda>s. (length (calls s), isPlaying s, audioCtx s, map kind (pending s)))
     (run (stale_drain_session @ restart_and_stop) initial)
   = Some (10, False, None, [SchedulerWake])"
  by (simp add: stale_drain_session_def restart_and_stop_def eng_defs scheduler.simps)

lemma after_stop_eval:
  "map_option (\<lambda>s. (map call_pos (calls_since 10 s), map call_time (calls_since 10 s)))
     (run (stale_drain_session @ restart_and_stop @ after_stop) initial)
   = Some ([(0, 0), (0, 0), (0, 0), (0, 0)], [11 / 100, 11 / 100, 11 / 100, 11 / 100])"
  by (simp add: stale_drain_session_def restart_and_stop_def after_stop_def eng_defs
        scheduler.simps calls_since_def call_pos_def call_time_def)

text \<open>
  Claim C4 fails after \<open>stale_drain_session\<close>. The running flag is false there, so the
  third \<^verbatim>\<open>playSong\<close> does not call \<^verbatim>\<open>stopSong\<close> and the second session's
  wake-up timer stays pending; the \<^verbatim>\<open>stopSong\<close> that follows at once clears only the
  timer \<^verbatim>\<open>timerID\<close> names. Ten sounds are logged before and after the pair of calls;
  then the timer left pending runs \<^verbatim>\<open>scheduler\<close>, which opens a new audio context
  and, one wake-up later, schedules the four sounds of position 0 of the stopped timeline.
  (From a state without such a timer, \<open>stop_right_after_start_silent\<close> above applies.)
\<close>

theorem sounds_after_immediate_stop:
  "map_option (length \<circ> calls) (run (stale_drain_session @ restart_and_stop) initial) = Some 10
   \<and> map_option isPlaying (run (stale_drain_session @ restart_and_stop) initial) = Some False
   \<and> map_option audioCtx (run (stale_drain_session @ restart_and_stop) initial) = Some None
   \<and> map_option (map kind \<circ> pending) (run (stale_drain_session @ restart_and_stop) initial)
       = Some [SchedulerWake]
   \<and> map_option (map call_pos \<circ> calls_since 10)
         (run (stale_drain_session @ restart_and_stop @ after_stop) initial)
       = Some [(0, 0), (0, 0), (0, 0), (0, 0)]
   \<and> map_option (map call_time \<circ> calls_since 10)
         (run (stale_drain_session @ restart_and_stop @ after_stop) initial)
       = Some [11 / 100, 11 / 100, 11 / 100, 11 / 100]"
proof -
  have a: "map_option (length \<circ> calls) (run (stale_drain_session @ restart_and_stop) initial) = Some 10
   \<and> map_option isPlaying (run (stale_drain_session @ restart_and_stop) initial) = Some False
   \<and> map_option audioCtx (run (stale_drain_session @ restart_and_stop) initial) = Some None
   \<and> map_option (map kind \<circ> pending) (run (stale_drain_session @ restart_and_stop) initial)
       = Some [SchedulerWake]"
    using restart_and_stop_eval
    by (cases "run (stale_drain_session @ restart_and_stop) initial") simp_all
  have b: "map_option (map call_pos \<circ> calls_since 10)
         (run (stale_drain_session @ restart_and_stop @ after_stop) initial)
       = Some [(0, 0), (0, 0), (0, 0), (0, 0)]
   \<and> map_option (map call_time \<circ> calls_since 10)
         (run (stale_drain_session @ restart_and_stop @ after_stop) initial)
       = Some [11 / 100, 11 / 100, 11 / 100, 11 / 100]"
    using after_stop_eval
    by (cases "run (stale_drain_session @ restart_and_stop @ after_stop) initial") simp_all
  from a b show ?thesis by blast
qed

end
